theory Spec2Isabelle
  imports Complex_Main "HOL-Library.Multiset" "HOL-Library.Char_ord" "HOL-Library.List_Lexorder"
begin

section \<open>Data model\<close>

text \<open>
  The splitting engine of \<^verbatim>\<open>analyzer/views.py\<close> consists of two functions,
  \<^verbatim>\<open>_split_dataframe\<close> (uniform) and \<^verbatim>\<open>_stratified_split\<close> (stratified by a label
  column). Both work on a pandas DataFrame.

  A DataFrame is modelled by its column names and its rows in order, every row carrying its
  index label. A cell is \<open>Some v\<close> or \<open>None\<close> (pandas' NaN, the missing value). The type
  \<open>'v\<close> of the present values is left open; grouping needs a linear order on it, as pandas
  iterates the groups in ascending key order.
\<close>

type_synonym 'v row = "'v option list"

record 'v dataframe =
  columns :: "string list"
  entries :: "(nat \<times> 'v row) list"

text \<open>The exceptions the two functions can end in.\<close>

datatype error = AssertionError | KeyError | ValueError | IndexError

text \<open>
  The pseudo-random number generators belong to numpy and pandas, not to the repository, so
  they are parameters of the model:
  \<^item> \<open>default_rng seed\<close> is the state of \<^verbatim>\<open>np.random.default_rng(seed)\<close>;
  \<^item> \<open>shuffle g xs\<close> is \<^verbatim>\<open>rng.shuffle(xs)\<close>: the array after the in-place shuffle
    and the advanced generator state;
  \<^item> \<open>sample_order seed n\<close> is the order in which
    \<^verbatim>\<open>DataFrame.sample(frac=1.0, random_state=seed)\<close> takes the positions of a frame
    of \<open>n\<close> rows (a fresh generator is built from \<open>seed\<close> at every call).
\<close>

record 'g rng_lib =
  default_rng :: "int \<Rightarrow> 'g"
  shuffle :: "'g \<Rightarrow> nat list \<Rightarrow> nat list \<times> 'g"
  sample_order :: "int \<Rightarrow> nat \<Rightarrow> nat list"

text \<open>
  What the libraries promise: a shuffle permutes its argument, and a full sample visits
  every position once.
\<close>

definition lib_ok :: "'g rng_lib \<Rightarrow> bool" where
  "lib_ok L \<longleftrightarrow>
     (\<forall>g xs. mset (fst (shuffle L g xs)) = mset xs) \<and>
     (\<forall>seed n. mset (sample_order L seed n) = mset [0..<n])"

text \<open>
  Python floats are modelled as exact rationals. For the ratios the repository uses
  (0.6, 0.2, 0.2, and the cut 0.8) the double product with a row count below \<open>2^50\<close>
  truncates to the same integer as the exact product.
\<close>

type_synonym ratios = "rat \<times> rat \<times> rat"

section \<open>Python and pandas primitives\<close>

definition len :: "'v dataframe \<Rightarrow> nat" where
  "len df = length (entries df)"

text \<open>\<^verbatim>\<open>int(x)\<close> on a float truncates towards zero.\<close>

definition py_int :: "rat \<Rightarrow> int" where
  "py_int x = (if 0 \<le> x then \<lfloor>x\<rfloor> else \<lceil>x\<rceil>)"

text \<open>
  A slice bound: absent bounds take the default, negative bounds count from the end, and
  everything is clipped to the length.
\<close>

definition slice_bound :: "nat \<Rightarrow> nat \<Rightarrow> int option \<Rightarrow> nat" where
  "slice_bound n dflt b =
     (case b of
        None \<Rightarrow> dflt
      | Some i \<Rightarrow> if i < 0 then nat (max (i + int n) 0) else min (nat i) n)"

definition py_slice :: "'a list \<Rightarrow> int option \<Rightarrow> int option \<Rightarrow> 'a list" where
  "py_slice xs a b =
     (let n = length xs; lo = slice_bound n 0 a; hi = slice_bound n n b
      in take (hi - lo) (drop lo xs))"

text \<open>
  \<^verbatim>\<open>df.iloc[idx]\<close> with an integer array: the rows at these positions, in this order,
  with their labels; a position out of range raises IndexError.
\<close>

definition rows_at :: "'v dataframe \<Rightarrow> nat list \<Rightarrow> 'v dataframe" where
  "rows_at df idx = df\<lparr>entries := map (\<lambda>i. entries df ! i) idx\<rparr>"

definition iloc :: "'v dataframe \<Rightarrow> nat list \<Rightarrow> error + 'v dataframe" where
  "iloc df idx =
     (if list_all (\<lambda>i. i < len df) idx then Inr (rows_at df idx) else Inl IndexError)"

section \<open>The uniform split\<close>

text \<open>
  \<^verbatim>\<open>_split_dataframe(df, seed=42)\<close>: one shuffle of \<open>[0..<n]\<close>, cut at
  \<open>int(0.6 * n)\<close> and \<open>int(0.8 * n)\<close>. The function has no ratios parameter.
\<close>

definition split_dataframe ::
  "'g rng_lib \<Rightarrow> 'v dataframe \<Rightarrow> int \<Rightarrow> error + ('v dataframe \<times> 'v dataframe \<times> 'v dataframe)"
where
  "split_dataframe L df seed =
     (let n = len df;
          rng = default_rng L seed;
          (indices, rng') = shuffle L rng [0..<n];
          t1 = py_int (6 / 10 * of_nat n);
          t2 = py_int (8 / 10 * of_nat n);
          train_idx = py_slice indices None (Some t1);
          val_idx = py_slice indices (Some t1) (Some t2);
          test_idx = py_slice indices (Some t2) None
      in case iloc df train_idx of
           Inl e \<Rightarrow> Inl e
         | Inr train \<Rightarrow>
             (case iloc df val_idx of
                Inl e \<Rightarrow> Inl e
              | Inr val \<Rightarrow>
                  (case iloc df test_idx of
                     Inl e \<Rightarrow> Inl e
                   | Inr test \<Rightarrow> Inr (train, val, test))))"

section \<open>The stratified split\<close>

text \<open>
  The value of the label column in a row. A DataFrame is rectangular; a row too short for
  the column reads as missing, which is how the parser pads short lines.
\<close>

definition label_of :: "nat \<Rightarrow> nat \<times> 'v row \<Rightarrow> 'v option" where
  "label_of pos e = (if pos < length (snd e) then snd e ! pos else None)"

fun col_pos :: "string list \<Rightarrow> string \<Rightarrow> nat" where
  "col_pos [] c = 0"
| "col_pos (x # xs) c = (if x = c then 0 else Suc (col_pos xs c))"

text \<open>
  The keys \<^verbatim>\<open>df.groupby(label_col, dropna=False)\<close> iterates over: the distinct
  present values in ascending order, then the missing value if some row has it.
\<close>

definition group_keys :: "nat \<Rightarrow> (nat \<times> 'v::linorder row) list \<Rightarrow> 'v option list" where
  "group_keys pos es =
     map Some (sort (remdups (List.map_filter (label_of pos) es))) @
     (if list_ex (\<lambda>e. label_of pos e = None) es then [None] else [])"

text \<open>
  \<^verbatim>\<open>df.groupby(label_col, dropna=False)\<close>: KeyError for an unknown column, ValueError
  when the name stands for several columns; otherwise one sub-frame per key, its rows in
  their original order and with their labels.
\<close>

definition groupby ::
  "'v::linorder dataframe \<Rightarrow> string \<Rightarrow> error + ('v option \<times> 'v dataframe) list"
where
  "groupby df label_col =
     (if label_col \<notin> set (columns df) then Inl KeyError
      else if count_list (columns df) label_col \<noteq> 1 then Inl ValueError
      else
        let pos = col_pos (columns df) label_col
        in Inr (map (\<lambda>k. (k, df\<lparr>entries := filter (\<lambda>e. label_of pos e = k) (entries df)\<rparr>))
                  (group_keys pos (entries df))))"

text \<open>The body of the loop over the groups, for one group.\<close>

definition split_group ::
  "'g rng_lib \<Rightarrow> ratios \<Rightarrow> 'g \<Rightarrow> 'v dataframe \<Rightarrow>
     error + ('g \<times> 'v dataframe \<times> 'v dataframe \<times> 'v dataframe)"
where
  "split_group L ratios rng grp =
     (let n = len grp;
          (idx, rng') = shuffle L rng [0..<n];
          n_train = py_int (fst ratios * of_nat n);
          n_val = py_int (fst (snd ratios) * of_nat n)
      in case iloc grp (py_slice idx None (Some n_train)) of
           Inl e \<Rightarrow> Inl e
         | Inr tr \<Rightarrow>
             (case iloc grp (py_slice idx (Some n_train) (Some (n_train + n_val))) of
                Inl e \<Rightarrow> Inl e
              | Inr va \<Rightarrow>
                  (case iloc grp (py_slice idx (Some (n_train + n_val)) None) of
                     Inl e \<Rightarrow> Inl e
                   | Inr te \<Rightarrow> Inr (rng', tr, va, te))))"

text \<open>
  The loop: the one generator is threaded through the groups in iteration order, and the
  three lists of parts grow by one frame per group.
\<close>

fun strat_loop ::
  "'g rng_lib \<Rightarrow> ratios \<Rightarrow> 'g \<Rightarrow> ('k \<times> 'v dataframe) list \<Rightarrow>
     'v dataframe list \<times> 'v dataframe list \<times> 'v dataframe list \<Rightarrow>
     error + ('v dataframe list \<times> 'v dataframe list \<times> 'v dataframe list)"
where
  "strat_loop L ratios rng [] parts = Inr parts"
| "strat_loop L ratios rng ((label, grp) # rest) (train_parts, val_parts, test_parts) =
     (case split_group L ratios rng grp of
        Inl e \<Rightarrow> Inl e
      | Inr (rng', tr, va, te) \<Rightarrow>
          strat_loop L ratios rng' rest
            (train_parts @ [tr], val_parts @ [va], test_parts @ [te]))"

text \<open>
  \<^verbatim>\<open>pd.concat(parts, axis=0)\<close> raises ValueError on an empty list. All parts come from
  the same frame, so the columns are those of the first.
\<close>

definition concat_frames :: "'v dataframe list \<Rightarrow> error + 'v dataframe" where
  "concat_frames parts =
     (case parts of
        [] \<Rightarrow> Inl ValueError
      | p # _ \<Rightarrow> Inr \<lparr>columns = columns p, entries = concat (map entries parts)\<rparr>)"

definition sample :: "'g rng_lib \<Rightarrow> int \<Rightarrow> 'v dataframe \<Rightarrow> error + 'v dataframe" where
  "sample L seed df = iloc df (sample_order L seed (len df))"

text \<open>\<^verbatim>\<open>reset_index(drop=True)\<close>: the labels become \<open>0, 1, ...\<close> and the old ones are dropped.\<close>

definition reset_index :: "'v dataframe \<Rightarrow> 'v dataframe" where
  "reset_index df = df\<lparr>entries := zip [0..<len df] (map snd (entries df))\<rparr>"

text \<open>\<^verbatim>\<open>pd.concat(parts, axis=0).sample(frac=1.0, random_state=seed).reset_index(drop=True)\<close>\<close>

definition pooled :: "'g rng_lib \<Rightarrow> int \<Rightarrow> 'v dataframe list \<Rightarrow> error + 'v dataframe" where
  "pooled L seed parts =
     (case concat_frames parts of
        Inl e \<Rightarrow> Inl e
      | Inr d \<Rightarrow> (case sample L seed d of Inl e \<Rightarrow> Inl e | Inr s \<Rightarrow> Inr (reset_index s)))"

definition ratios_ok :: "ratios \<Rightarrow> bool" where
  "ratios_ok ratios \<longleftrightarrow>
     \<bar>(0 + fst ratios + fst (snd ratios) + snd (snd ratios)) - 1\<bar> < 1 / 1000000"

definition stratified_split ::
  "'g rng_lib \<Rightarrow> 'v::linorder dataframe \<Rightarrow> string \<Rightarrow> int \<Rightarrow> ratios \<Rightarrow>
     error + ('v dataframe \<times> 'v dataframe \<times> 'v dataframe)"
where
  "stratified_split L df label_col seed ratios =
     (if \<not> ratios_ok ratios then Inl AssertionError
      else
        let rng = default_rng L seed
        in case groupby df label_col of
             Inl e \<Rightarrow> Inl e
           | Inr groups \<Rightarrow>
               (case strat_loop L ratios rng groups ([], [], []) of
                  Inl e \<Rightarrow> Inl e
                | Inr (train_parts, val_parts, test_parts) \<Rightarrow>
                    (case pooled L seed train_parts of
                       Inl e \<Rightarrow> Inl e
                     | Inr train_df \<Rightarrow>
                         (case pooled L seed val_parts of
                            Inl e \<Rightarrow> Inl e
                          | Inr val_df \<Rightarrow>
                              (case pooled L seed test_parts of
                                 Inl e \<Rightarrow> Inl e
                               | Inr test_df \<Rightarrow> Inr (train_df, val_df, test_df))))))"

section \<open>The two functions with object identities\<close>

text \<open>
  Python passes the table by reference, and \<^verbatim>\<open>rng.shuffle\<close> and \<^verbatim>\<open>list.append\<close>
  change their object in place. To state what a call leaves untouched, the two functions
  are given a second time over a store of objects. An address is a position in the store;
  a new object goes to the end. Every library call that returns a new object
  (\<^verbatim>\<open>default_rng\<close>, \<^verbatim>\<open>arange\<close>, \<^verbatim>\<open>iloc\<close>, the groups of \<^verbatim>\<open>groupby\<close>,
  \<^verbatim>\<open>concat\<close>, \<^verbatim>\<open>sample\<close>, \<^verbatim>\<open>reset_index\<close>) allocates; the slices of an index
  array are views and are read through the array. The argument \<open>df\<close> is the address of
  a DataFrame; all other addresses a function reads are addresses of objects it has
  allocated itself.
\<close>

datatype ('g, 'v) obj =
  Frame (the_frame: "'v dataframe")
| Ints (the_ints: "nat list")
| Generator (the_gen: 'g)
| Refs (the_refs: "nat list")

type_synonym ('g, 'v) heap = "('g, 'v) obj list"

definition new :: "('g, 'v) heap \<Rightarrow> ('g, 'v) obj \<Rightarrow> nat \<times> ('g, 'v) heap" where
  "new h x = (length h, h @ [x])"

text \<open>\<^verbatim>\<open>rng.shuffle(arr)\<close>: the array and the generator change in place.\<close>

definition shuffle_at :: "'g rng_lib \<Rightarrow> ('g, 'v) heap \<Rightarrow> nat \<Rightarrow> nat \<Rightarrow> ('g, 'v) heap" where
  "shuffle_at L h rng arr =
     (let (p, g') = shuffle L (the_gen (h ! rng)) (the_ints (h ! arr))
      in h[arr := Ints p, rng := Generator g'])"

text \<open>\<^verbatim>\<open>lst.append(a)\<close>: the list changes in place.\<close>

definition append_at :: "('g, 'v) heap \<Rightarrow> nat \<Rightarrow> nat \<Rightarrow> ('g, 'v) heap" where
  "append_at h lst a = h[lst := Refs (the_refs (h ! lst) @ [a])]"

text \<open>\<^verbatim>\<open>df.iloc[idx]\<close>: a new frame.\<close>

definition iloc_at ::
  "('g, 'v) heap \<Rightarrow> nat \<Rightarrow> nat list \<Rightarrow> error + (nat \<times> ('g, 'v) heap)"
where
  "iloc_at h df idx =
     (case iloc (the_frame (h ! df)) idx of
        Inl e \<Rightarrow> Inl e
      | Inr d \<Rightarrow> Inr (new h (Frame d)))"

definition split_dataframe_at ::
  "'g rng_lib \<Rightarrow> ('g, 'v) heap \<Rightarrow> nat \<Rightarrow> int \<Rightarrow>
     error + ((nat \<times> nat \<times> nat) \<times> ('g, 'v) heap)"
where
  "split_dataframe_at L h df seed =
     (let n = len (the_frame (h ! df));
          (rng, h1) = new h (Generator (default_rng L seed));
          (indices, h2) = new h1 (Ints [0..<n]);
          h3 = shuffle_at L h2 rng indices;
          t1 = py_int (6 / 10 * of_nat n);
          t2 = py_int (8 / 10 * of_nat n)
      in case iloc_at h3 df (py_slice (the_ints (h3 ! indices)) None (Some t1)) of
           Inl e \<Rightarrow> Inl e
         | Inr (train, h4) \<Rightarrow>
             (case iloc_at h4 df (py_slice (the_ints (h4 ! indices)) (Some t1) (Some t2)) of
                Inl e \<Rightarrow> Inl e
              | Inr (val, h5) \<Rightarrow>
                  (case iloc_at h5 df (py_slice (the_ints (h5 ! indices)) (Some t2) None) of
                     Inl e \<Rightarrow> Inl e
                   | Inr (test, h6) \<Rightarrow> Inr ((train, val, test), h6))))"

text \<open>The groups are new frames; the iteration gets each key with the address of its group.\<close>

definition groupby_at ::
  "('g, 'v::linorder) heap \<Rightarrow> nat \<Rightarrow> string \<Rightarrow>
     error + (('v option \<times> nat) list \<times> ('g, 'v) heap)"
where
  "groupby_at h df label_col =
     (case groupby (the_frame (h ! df)) label_col of
        Inl e \<Rightarrow> Inl e
      | Inr groups \<Rightarrow>
          Inr (zip (map fst groups) [length h..<length h + length groups],
               h @ map (\<lambda>kg. Frame (snd kg)) groups))"

definition split_group_at ::
  "'g rng_lib \<Rightarrow> ratios \<Rightarrow> ('g, 'v) heap \<Rightarrow> nat \<Rightarrow> nat \<Rightarrow> nat \<Rightarrow> nat \<Rightarrow> nat \<Rightarrow>
     error + ('g, 'v) heap"
where
  "split_group_at L ratios h rng grp train_parts val_parts test_parts =
     (let n = len (the_frame (h ! grp));
          (idx, h1) = new h (Ints [0..<n]);
          h2 = shuffle_at L h1 rng idx;
          n_train = py_int (fst ratios * of_nat n);
          n_val = py_int (fst (snd ratios) * of_nat n)
      in case iloc_at h2 grp (py_slice (the_ints (h2 ! idx)) None (Some n_train)) of
           Inl e \<Rightarrow> Inl e
         | Inr (tr, h3) \<Rightarrow>
             (let h4 = append_at h3 train_parts tr
              in case iloc_at h4 grp
                     (py_slice (the_ints (h4 ! idx)) (Some n_train) (Some (n_train + n_val))) of
                   Inl e \<Rightarrow> Inl e
                 | Inr (va, h5) \<Rightarrow>
                     (let h6 = append_at h5 val_parts va
                      in case iloc_at h6 grp
                             (py_slice (the_ints (h6 ! idx)) (Some (n_train + n_val)) None) of
                           Inl e \<Rightarrow> Inl e
                         | Inr (te, h7) \<Rightarrow> Inr (append_at h7 test_parts te))))"

fun strat_loop_at ::
  "'g rng_lib \<Rightarrow> ratios \<Rightarrow> ('g, 'v) heap \<Rightarrow> nat \<Rightarrow> ('k \<times> nat) list \<Rightarrow> nat \<Rightarrow> nat \<Rightarrow> nat \<Rightarrow>
     error + ('g, 'v) heap"
where
  "strat_loop_at L ratios h rng [] train_parts val_parts test_parts = Inr h"
| "strat_loop_at L ratios h rng ((label, grp) # rest) train_parts val_parts test_parts =
     (case split_group_at L ratios h rng grp train_parts val_parts test_parts of
        Inl e \<Rightarrow> Inl e
      | Inr h' \<Rightarrow> strat_loop_at L ratios h' rng rest train_parts val_parts test_parts)"

definition pooled_at ::
  "'g rng_lib \<Rightarrow> int \<Rightarrow> ('g, 'v) heap \<Rightarrow> nat \<Rightarrow> error + (nat \<times> ('g, 'v) heap)"
where
  "pooled_at L seed h parts =
     (case concat_frames (map (\<lambda>a. the_frame (h ! a)) (the_refs (h ! parts))) of
        Inl e \<Rightarrow> Inl e
      | Inr d \<Rightarrow>
          (let (c, h1) = new h (Frame d)
           in case sample L seed (the_frame (h1 ! c)) of
                Inl e \<Rightarrow> Inl e
              | Inr s \<Rightarrow>
                  (let (s', h2) = new h1 (Frame s)
                   in Inr (new h2 (Frame (reset_index (the_frame (h2 ! s'))))))))"

definition stratified_split_at ::
  "'g rng_lib \<Rightarrow> ('g, 'v::linorder) heap \<Rightarrow> nat \<Rightarrow> string \<Rightarrow> int \<Rightarrow> ratios \<Rightarrow>
     error + ((nat \<times> nat \<times> nat) \<times> ('g, 'v) heap)"
where
  "stratified_split_at L h df label_col seed ratios =
     (if \<not> ratios_ok ratios then Inl AssertionError
      else
        let (rng, h1) = new h (Generator (default_rng L seed));
            (train_parts, h2) = new h1 (Refs []);
            (val_parts, h3) = new h2 (Refs []);
            (test_parts, h4) = new h3 (Refs [])
        in case groupby_at h4 df label_col of
             Inl e \<Rightarrow> Inl e
           | Inr (groups, h5) \<Rightarrow>
               (case strat_loop_at L ratios h5 rng groups train_parts val_parts test_parts of
                  Inl e \<Rightarrow> Inl e
                | Inr h6 \<Rightarrow>
                    (case pooled_at L seed h6 train_parts of
                       Inl e \<Rightarrow> Inl e
                     | Inr (train_df, h7) \<Rightarrow>
                         (case pooled_at L seed h7 val_parts of
                            Inl e \<Rightarrow> Inl e
                          | Inr (val_df, h8) \<Rightarrow>
                              (case pooled_at L seed h8 test_parts of
                                 Inl e \<Rightarrow> Inl e
                               | Inr (test_df, h9) \<Rightarrow>
                                   Inr ((train_df, val_df, test_df), h9))))))"

text \<open>The frames a call returns, read from the store it leaves.\<close>

definition frames_of ::
  "error + ((nat \<times> nat \<times> nat) \<times> ('g, 'v) heap) \<Rightarrow>
     error + ('v dataframe \<times> 'v dataframe \<times> 'v dataframe)"
where
  "frames_of res =
     (case res of
        Inl e \<Rightarrow> Inl e
      | Inr ((a, b, c), h) \<Rightarrow> Inr (the_frame (h ! a), the_frame (h ! b), the_frame (h ! c)))"

section \<open>Concrete inputs\<close>

text \<open>
  For closed examples the library parameter is instantiated by a generator whose state is
  a counter: a shuffle rotates the array by the counter and advances it; a full sample
  reverses the positions.
\<close>

definition demo_lib :: "nat rng_lib" where
  "demo_lib = \<lparr>default_rng = (\<lambda>seed. nat \<bar>seed\<bar>),
               shuffle = (\<lambda>g xs. (rotate g xs, Suc g)),
               sample_order = (\<lambda>seed n. rev [0..<n])\<rparr>"

text \<open>
  A table of five connection records, as the view builds it when every column stays text:
  three rows of protocol \<open>tcp\<close>, one of \<open>udp\<close> and one whose protocol is missing.
\<close>

definition demo_table :: "string dataframe" where
  "demo_table =
     \<lparr>columns = [''duration'', ''protocol_type''],
      entries = [(0, [Some ''0'', Some ''tcp'']),
                 (1, [Some ''2'', Some ''udp'']),
                 (2, [Some ''0'', Some ''tcp'']),
                 (3, [Some ''5'', None]),
                 (4, [Some ''1'', Some ''tcp''])]\<rparr>"

text \<open>The default ratios of \<^verbatim>\<open>_stratified_split\<close>.\<close>

definition default_ratios :: ratios where
  "default_ratios = (6 / 10, 2 / 10, 2 / 10)"

text \<open>A table with the two columns and no rows.\<close>

definition empty_table :: "string dataframe" where
  "empty_table = \<lparr>columns = [''duration'', ''protocol_type''], entries = []\<rparr>"

text \<open>
  Two tables that share their \<open>udp\<close> rows: the second has one more row, of protocol
  \<open>tcp\<close>, whose group comes first in the iteration.
\<close>

definition udp_table :: "string dataframe" where
  "udp_table =
     \<lparr>columns = [''duration'', ''protocol_type''],
      entries = [(0, [Some ''3'', Some ''udp'']), (1, [Some ''7'', Some ''udp''])]\<rparr>"

definition udp_tcp_table :: "string dataframe" where
  "udp_tcp_table =
     \<lparr>columns = [''duration'', ''protocol_type''],
      entries = [(0, [Some ''3'', Some ''udp'']), (1, [Some ''7'', Some ''udp'']),
                 (2, [Some ''0'', Some ''tcp''])]\<rparr>"

text \<open>
  A table of one hundred rows with a single column: fifty rows of label \<open>A\<close>, thirty of
  \<open>B\<close> and twenty of \<open>C\<close>.
\<close>

definition abc_table :: "string dataframe" where
  "abc_table =
     \<lparr>columns = [''label''],
      entries = zip [0..<100]
        (replicate 50 [Some ''A''] @ replicate 30 [Some ''B''] @ replicate 20 [Some ''C''])\<rparr>"

text \<open>A store with one object, the five-row table at address 0.\<close>

definition demo_heap :: "(nat, string) heap" where
  "demo_heap = [Frame demo_table]"

section \<open>Quantities of the specification\<close>

text \<open>
  The sizes the specification names for a group of \<open>n\<close> rows:
  \<open>floor(ratios[0] * n)\<close> and \<open>floor(ratios[1] * n)\<close>.
\<close>

definition n_train :: "ratios \<Rightarrow> nat \<Rightarrow> nat" where
  "n_train r n = nat \<lfloor>fst r * of_nat n\<rfloor>"

definition n_val :: "ratios \<Rightarrow> nat \<Rightarrow> nat" where
  "n_val r n = nat \<lfloor>fst (snd r) * of_nat n\<rfloor>"

text \<open>
  The permutations one generator yields when it shuffles arrays of the given lengths one
  after the other.
\<close>

fun perms_seq :: "'g rng_lib \<Rightarrow> 'g \<Rightarrow> nat list \<Rightarrow> nat list list" where
  "perms_seq L g [] = []"
| "perms_seq L g (n # ns) =
     fst (shuffle L g [0..<n]) # perms_seq L (snd (shuffle L g [0..<n])) ns"

text \<open>The three slices of a group under a permutation of its positions.\<close>

definition train_part :: "ratios \<Rightarrow> 'v dataframe \<Rightarrow> nat list \<Rightarrow> 'v dataframe" where
  "train_part r grp p = rows_at grp (take (n_train r (len grp)) p)"

definition val_part :: "ratios \<Rightarrow> 'v dataframe \<Rightarrow> nat list \<Rightarrow> 'v dataframe" where
  "val_part r grp p = rows_at grp (take (n_val r (len grp)) (drop (n_train r (len grp)) p))"

definition test_part :: "ratios \<Rightarrow> 'v dataframe \<Rightarrow> nat list \<Rightarrow> 'v dataframe" where
  "test_part r grp p = rows_at grp (drop (n_train r (len grp) + n_val r (len grp)) p)"

text \<open>The rows of a list of parts, in order: the rows of their concatenation.\<close>

definition rows_of :: "'v dataframe list \<Rightarrow> (nat \<times> 'v row) list" where
  "rows_of parts = concat (map entries parts)"

text \<open>
  A pooled partition before its index is reset: the concatenated parts in the order the
  full sample takes them, every row still with its original label.
\<close>

definition pool_frame :: "'g rng_lib \<Rightarrow> int \<Rightarrow> 'v dataframe list \<Rightarrow> 'v dataframe" where
  "pool_frame L seed parts =
     rows_at \<lparr>columns = columns (hd parts), entries = rows_of parts\<rparr>
       (sample_order L seed (length (rows_of parts)))"

text \<open>The number of rows of a frame whose label-column value is \<open>k\<close>.\<close>

definition label_count :: "'v dataframe \<Rightarrow> string \<Rightarrow> 'v option \<Rightarrow> nat" where
  "label_count df label_col k =
     count_list (map (label_of (col_pos (columns df) label_col)) (entries df)) k"

text \<open>What the groups of key \<open>k\<close> contribute when a group of \<open>n\<close> rows gives \<open>h n\<close> rows.\<close>

definition key_total :: "(nat \<Rightarrow> nat) \<Rightarrow> 'k \<Rightarrow> ('k \<times> 'v dataframe) list \<Rightarrow> nat" where
  "key_total h k groups = sum_list (map (\<lambda>kg. if fst kg = k then h (len (snd kg)) else 0) groups)"

text \<open>
  The frames a list object refers to, and the condition under which the loop runs: the
  generator and the three lists are four different objects of the store, and the lists
  refer to objects other than these four.
\<close>

definition parts_of :: "('g, 'v) heap \<Rightarrow> nat \<Rightarrow> 'v dataframe list" where
  "parts_of h lst = map (\<lambda>a. the_frame (h ! a)) (the_refs (h ! lst))"

definition loop_ok :: "('g, 'v) heap \<Rightarrow> nat \<Rightarrow> nat \<Rightarrow> nat \<Rightarrow> nat \<Rightarrow> bool" where
  "loop_ok h rng tp vp tep \<longleftrightarrow>
     distinct [rng, tp, vp, tep] \<and>
     rng < length h \<and> tp < length h \<and> vp < length h \<and> tep < length h \<and>
     list_all (\<lambda>a. a < length h \<and> a \<noteq> rng \<and> a \<noteq> tp \<and> a \<noteq> vp \<and> a \<noteq> tep)
       (the_refs (h ! tp) @ the_refs (h ! vp) @ the_refs (h ! tep))"

section \<open>Slices, positions and permutations\<close>

lemma slice_prefix: "0 \<le> a \<Longrightarrow> py_slice xs None (Some a) = take (nat a) xs"
  by (simp add: py_slice_def slice_bound_def Let_def min_def)

lemma slice_middle:
  "0 \<le> a \<Longrightarrow> a \<le> c \<Longrightarrow> py_slice xs (Some a) (Some c) = take (nat c - nat a) (drop (nat a) xs)"
  by (auto simp add: py_slice_def slice_bound_def Let_def min_def)

lemma slice_suffix: "0 \<le> a \<Longrightarrow> py_slice xs (Some a) None = drop (nat a) xs"
  by (simp add: py_slice_def slice_bound_def Let_def min_def)

lemma three_pieces: "a \<le> c \<Longrightarrow> take a xs @ take (c - a) (drop a xs) @ drop c xs = xs"
  by (metis add_diff_inverse_nat append_take_drop_id not_less append.assoc take_add)

lemma iloc_Inr: "set idx \<subseteq> {..<len df} \<Longrightarrow> iloc df idx = Inr (rows_at df idx)"
  by (auto simp: iloc_def list_all_iff)

lemma shuffle_set: "lib_ok L \<Longrightarrow> set (fst (shuffle L g [0..<n])) = {..<n}"
  by (metis lib_ok_def mset_eq_setD set_upt atLeast0LessThan)

lemma shuffle_length: "lib_ok L \<Longrightarrow> length (fst (shuffle L g xs)) = length xs"
  by (metis lib_ok_def mset_eq_length)

lemma sample_set: "lib_ok L \<Longrightarrow> set (sample_order L seed n) = {..<n}"
  by (metis lib_ok_def mset_eq_setD set_upt atLeast0LessThan)

lemma perm_map_nth:
  assumes "mset p = mset [0..<length xs]"
  shows "mset (map (\<lambda>i. xs ! i) p) = mset xs"
proof -
  have "mset (map (\<lambda>i. xs ! i) p) = image_mset (\<lambda>i. xs ! i) (mset [0..<length xs])"
    using assms by (metis mset_map)
  also have "\<dots> = mset (map (\<lambda>i. xs ! i) [0..<length xs])" by simp
  also have "\<dots> = mset xs" by (simp add: map_nth)
  finally show ?thesis .
qed

lemma columns_rows_at [simp]: "columns (rows_at df idx) = columns df"
  by (simp add: rows_at_def)

lemma entries_rows_at [simp]: "entries (rows_at df idx) = map (\<lambda>i. entries df ! i) idx"
  by (simp add: rows_at_def)

lemma len_rows_at [simp]: "len (rows_at df idx) = length idx"
  by (simp add: len_def)

lemma cut3:
  assumes "set p \<subseteq> {..<len df}" "0 \<le> a" "a \<le> c"
  shows "(case iloc df (py_slice p None (Some a)) of
            Inl e \<Rightarrow> Inl e
          | Inr tr \<Rightarrow>
              (case iloc df (py_slice p (Some a) (Some c)) of
                 Inl e \<Rightarrow> Inl e
               | Inr va \<Rightarrow>
                   (case iloc df (py_slice p (Some c) None) of
                      Inl e \<Rightarrow> Inl e
                    | Inr te \<Rightarrow> Inr (f tr va te)))) =
         Inr (f (rows_at df (take (nat a) p))
                (rows_at df (take (nat c - nat a) (drop (nat a) p)))
                (rows_at df (drop (nat c) p)))"
proof -
  have a: "set (take k p) \<subseteq> {..<len df}" for k using assms(1) set_take_subset by fastforce
  have b: "set (drop k p) \<subseteq> {..<len df}" for k using assms(1) set_drop_subset by fastforce
  have c: "set (take j (drop k p)) \<subseteq> {..<len df}" for j k using b set_take_subset by fastforce
  have "0 \<le> c" using assms by simp
  then show ?thesis
    using assms(2,3)
    by (simp add: slice_prefix slice_middle slice_suffix iloc_Inr a b c)
qed

lemma cut_nonneg: "0 \<le> py_int (6 / 10 * of_nat n)" "py_int (6 / 10 * of_nat n) \<le> py_int (8 / 10 * of_nat n)"
  by (simp_all add: py_int_def floor_mono)

lemma split_dataframe_closed_form:
  assumes "lib_ok L"
  shows "split_dataframe L df seed =
     (let p = fst (shuffle L (default_rng L seed) [0..<len df]);
          t1 = nat (py_int (6 / 10 * of_nat (len df)));
          t2 = nat (py_int (8 / 10 * of_nat (len df)))
      in Inr (rows_at df (take t1 p), rows_at df (take (t2 - t1) (drop t1 p)), rows_at df (drop t2 p)))"
proof -
  let ?p = "fst (shuffle L (default_rng L seed) [0..<len df])"
  have sub: "set ?p \<subseteq> {..<len df}" using shuffle_set[OF assms] by blast
  show ?thesis
    unfolding split_dataframe_def Let_def case_prod_beta
    by (rule cut3[OF sub cut_nonneg])
qed

lemma cut_60: "nat (py_int (6 / 10 * of_nat n)) = 6 * n div 10"
proof -
  have "(6 / 10 * of_nat n :: rat) = of_nat (6 * n) / of_nat 10" by simp
  then have "\<lfloor>6 / 10 * of_nat n :: rat\<rfloor> = int (6 * n div 10)"
    by (metis floor_divide_of_nat_eq)
  then show ?thesis by (simp add: py_int_def)
qed

lemma cut_80: "nat (py_int (8 / 10 * of_nat n)) = 8 * n div 10"
proof -
  have "(8 / 10 * of_nat n :: rat) = of_nat (8 * n) / of_nat 10" by simp
  then have "\<lfloor>8 / 10 * of_nat n :: rat\<rfloor> = int (8 * n div 10)"
    by (metis floor_divide_of_nat_eq)
  then show ?thesis by (simp add: py_int_def)
qed

lemma split_group_closed_form:
  assumes "lib_ok L" "0 \<le> fst r" "0 \<le> fst (snd r)"
  shows "split_group L r g grp =
     (let p = fst (shuffle L g [0..<len grp]); a = n_train r (len grp); b = n_val r (len grp)
      in Inr (snd (shuffle L g [0..<len grp]),
              rows_at grp (take a p), rows_at grp (take b (drop a p)), rows_at grp (drop (a + b) p)))"
proof -
  let ?p = "fst (shuffle L g [0..<len grp])"
  let ?a = "py_int (fst r * of_nat (len grp))"
  let ?b = "py_int (fst (snd r) * of_nat (len grp))"
  have sub: "set ?p \<subseteq> {..<len grp}" using shuffle_set[OF assms(1)] by blast
  have a: "0 \<le> ?a" and b: "0 \<le> ?b" using assms by (simp_all add: py_int_def)
  have ab: "?a \<le> ?a + ?b" using b by simp
  have na: "nat ?a = n_train r (len grp)" and nb: "nat ?b = n_val r (len grp)"
    using assms by (simp_all add: py_int_def n_train_def n_val_def)
  have nab: "nat (?a + ?b) = n_train r (len grp) + n_val r (len grp)"
    using a b na nb by (simp add: nat_add_distrib)
  show ?thesis
    unfolding split_group_def Let_def case_prod_beta
    by (simp only: cut3[OF sub a ab] na nab add_diff_cancel_left')
qed

section \<open>The loop over the groups\<close>

lemma split_group_parts:
  assumes "lib_ok L" "0 \<le> fst r" "0 \<le> fst (snd r)"
  shows "split_group L r g grp =
     Inr (snd (shuffle L g [0..<len grp]),
          train_part r grp (fst (shuffle L g [0..<len grp])),
          val_part r grp (fst (shuffle L g [0..<len grp])),
          test_part r grp (fst (shuffle L g [0..<len grp])))"
  using split_group_closed_form[OF assms, of g grp]
  by (simp add: Let_def train_part_def val_part_def test_part_def)

lemma strat_loop_closed_form:
  assumes "lib_ok L" "0 \<le> fst r" "0 \<le> fst (snd r)"
  shows "strat_loop L r g groups (A, B, C) =
     Inr (A @ map2 (train_part r) (map snd groups) (perms_seq L g (map (\<lambda>kg. len (snd kg)) groups)),
          B @ map2 (val_part r) (map snd groups) (perms_seq L g (map (\<lambda>kg. len (snd kg)) groups)),
          C @ map2 (test_part r) (map snd groups) (perms_seq L g (map (\<lambda>kg. len (snd kg)) groups)))"
proof (induction groups arbitrary: g A B C)
  case Nil
  show ?case by simp
next
  case (Cons kg groups)
  obtain k grp where kg: "kg = (k, grp)" by (cases kg)
  show ?case
    by (simp add: kg split_group_parts[OF assms] Cons.IH)
qed

lemma perms_seq_length [simp]: "length (perms_seq L g ns) = length ns"
  by (induction ns arbitrary: g) simp_all

lemma perms_seq_take: "take i (perms_seq L g ns) = perms_seq L g (take i ns)"
proof (induction ns arbitrary: g i)
  case Nil show ?case by simp
next
  case (Cons n ns)
  show ?case by (cases i) (simp_all add: Cons.IH)
qed

section \<open>Groups and their rows\<close>

lemma group_pieces_mset:
  assumes "mset p = mset [0..<len grp]"
  shows "mset (entries (train_part r grp p)) + mset (entries (val_part r grp p)) +
         mset (entries (test_part r grp p)) = mset (entries grp)"
proof -
  let ?a = "n_train r (len grp)" and ?b = "n_val r (len grp)"
  have "take ?a p @ take ?b (drop ?a p) @ drop (?a + ?b) p = p"
    using three_pieces[of ?a "?a + ?b" p] by simp
  then have "entries (train_part r grp p) @ entries (val_part r grp p) @ entries (test_part r grp p)
      = map (\<lambda>i. entries grp ! i) p"
    unfolding train_part_def val_part_def test_part_def entries_rows_at
    by (metis map_append)
  then have "mset (entries (train_part r grp p) @ entries (val_part r grp p) @ entries (test_part r grp p))
      = mset (entries grp)"
    using perm_map_nth[of p "entries grp"] assms by (simp add: len_def)
  then show ?thesis by (simp add: ac_simps)
qed

lemma rows_of_simps [simp]:
  "rows_of [] = []" "rows_of (p # ps) = entries p @ rows_of ps"
  "rows_of (ps @ qs) = rows_of ps @ rows_of qs"
  by (simp_all add: rows_of_def)

lemma strat_loop_mset:
  assumes "lib_ok L" "0 \<le> fst r" "0 \<le> fst (snd r)"
    and "strat_loop L r g groups (A, B, C) = Inr (A', B', C')"
  shows "mset (rows_of A') + mset (rows_of B') + mset (rows_of C') =
         mset (rows_of A) + mset (rows_of B) + mset (rows_of C) + mset (rows_of (map snd groups))"
  using assms(4)
proof (induction groups arbitrary: g A B C)
  case Nil
  then show ?case by simp
next
  case (Cons kg groups)
  obtain k grp where kg: "kg = (k, grp)" by (cases kg)
  let ?p = "fst (shuffle L g [0..<len grp])"
  have perm: "mset ?p = mset [0..<len grp]" using assms(1) by (simp add: lib_ok_def)
  from Cons.prems have "strat_loop L r (snd (shuffle L g [0..<len grp])) groups
      (A @ [train_part r grp ?p], B @ [val_part r grp ?p], C @ [test_part r grp ?p]) = Inr (A', B', C')"
    by (simp add: kg split_group_parts[OF assms(1-3)])
  from Cons.IH[OF this] group_pieces_mset[OF perm, of r]
  show ?case by (simp add: kg ac_simps)
qed

lemma filter_keys_mset:
  assumes "distinct ks" "f ` set es \<subseteq> set ks"
  shows "mset (concat (map (\<lambda>k. filter (\<lambda>e. f e = k) es) ks)) = mset es"
proof -
  have "distinct ks \<Longrightarrow> mset (concat (map (\<lambda>k. filter (\<lambda>e. f e = k) es) ks)) = filter_mset (\<lambda>e. f e \<in> set ks) (mset es)" for ks
  proof (induction ks)
    case Nil
    show ?case by simp
  next
    case (Cons k ks)
    have "filter_mset (\<lambda>e. f e = k) (mset es) + filter_mset (\<lambda>e. f e \<in> set ks) (mset es)
        = filter_mset (\<lambda>e. f e \<in> set (k # ks)) (mset es)"
      using Cons.prems by (induction es) auto
    with Cons show ?case by simp
  qed
  from this[OF assms(1)]
  have "mset (concat (map (\<lambda>k. filter (\<lambda>e. f e = k) es) ks)) = filter_mset (\<lambda>e. f e \<in> set ks) (mset es)" .
  also have "\<dots> = mset es"
  proof -
    have "filter_mset (\<lambda>e. f e \<in> set ks) (mset es) = filter_mset (\<lambda>e. True) (mset es)"
      using assms(2) by (intro filter_mset_cong) auto
    then show ?thesis by simp
  qed
  finally show ?thesis .
qed

lemma group_keys_distinct: "distinct (group_keys pos es)"
  by (auto simp: group_keys_def distinct_map)

lemma map_filter_set: "v \<in> set (List.map_filter f xs) \<longleftrightarrow> (\<exists>x\<in>set xs. f x = Some v)"
  by (induction xs) (auto simp: List.map_filter_simps split: option.splits)

lemma group_keys_mem: "k \<in> set (group_keys pos es) \<longleftrightarrow> (\<exists>e\<in>set es. label_of pos e = k)"
proof (cases k)
  case None
  then show ?thesis by (auto simp: group_keys_def list_ex_iff)
next
  case (Some v)
  have "Some v \<in> Some ` set (List.map_filter (label_of pos) es)
      \<longleftrightarrow> (\<exists>e\<in>set es. label_of pos e = Some v)"
    using map_filter_set[of v "label_of pos" es] by blast
  then show ?thesis using Some by (simp add: group_keys_def)
qed

lemma group_keys_set: "set (group_keys pos es) = label_of pos ` set es"
  using group_keys_mem[of _ pos es] by (auto simp: image_iff)

lemma group_keys_Nil: "group_keys pos es = [] \<longleftrightarrow> es = []"
  using group_keys_set[of pos es] by (metis image_is_empty set_empty)

section \<open>Grouping, pooling and index reset\<close>

lemma groupby_Inr:
  assumes "count_list (columns df) label_col = 1"
  shows "groupby df label_col =
     Inr (map (\<lambda>k. (k, df\<lparr>entries := filter (\<lambda>e. label_of (col_pos (columns df) label_col) e = k) (entries df)\<rparr>))
            (group_keys (col_pos (columns df) label_col) (entries df)))"
proof -
  have "label_col \<in> set (columns df)"
    using assms by (metis count_list_0_iff zero_neq_one)
  then show ?thesis using assms by (simp add: groupby_def Let_def)
qed

lemma groupby_rows:
  assumes "groupby df label_col = Inr groups"
  shows "mset (rows_of (map snd groups)) = mset (entries df)"
proof -
  let ?pos = "col_pos (columns df) label_col"
  from assms have g: "groups = map (\<lambda>k. (k, df\<lparr>entries := filter (\<lambda>e. label_of ?pos e = k) (entries df)\<rparr>))
            (group_keys ?pos (entries df))"
    by (auto simp: groupby_def Let_def split: if_splits)
  have "rows_of (map snd groups) = concat (map (\<lambda>k. filter (\<lambda>e. label_of ?pos e = k) (entries df)) (group_keys ?pos (entries df)))"
    by (simp add: g rows_of_def comp_def)
  then show ?thesis
    using filter_keys_mset[OF group_keys_distinct, of "label_of ?pos" "entries df" ?pos "entries df"]
    by (simp add: group_keys_set)
qed

lemma groupby_Nil:
  assumes "groupby df label_col = Inr groups"
  shows "groups = [] \<longleftrightarrow> entries df = []"
  using assms by (auto simp: groupby_def Let_def group_keys_Nil split: if_splits)

lemma groupby_columns:
  assumes "groupby df label_col = Inr groups" "kg \<in> set groups"
  shows "columns (snd kg) = columns df"
  using assms by (auto simp: groupby_def Let_def split: if_splits)

lemma pooled_closed_form:
  assumes "lib_ok L" "parts \<noteq> []"
  shows "pooled L seed parts =
     Inr (reset_index (rows_at \<lparr>columns = columns (hd parts), entries = rows_of parts\<rparr>
            (sample_order L seed (length (rows_of parts)))))"
proof -
  obtain p ps where parts: "parts = p # ps" using assms(2) by (cases parts) auto
  let ?d = "\<lparr>columns = columns p, entries = rows_of parts\<rparr>"
  have c: "concat_frames parts = Inr ?d" by (simp add: concat_frames_def parts rows_of_def)
  have "set (sample_order L seed (len ?d)) \<subseteq> {..<len ?d}"
    using sample_set[OF assms(1)] by blast
  then have s: "sample L seed ?d = Inr (rows_at ?d (sample_order L seed (len ?d)))"
    unfolding sample_def by (rule iloc_Inr)
  have l: "len ?d = length (rows_of parts)" by (simp add: len_def)
  have h: "hd parts = p" by (simp add: parts)
  show ?thesis
    unfolding pooled_def c sum.case s l h ..
qed

lemma entries_reset_index: "map snd (entries (reset_index d)) = map snd (entries d)"
  by (simp add: reset_index_def len_def)

lemma index_reset_index: "map fst (entries (reset_index d)) = [0..<len d]"
  by (simp add: reset_index_def len_def)

lemma columns_reset_index [simp]: "columns (reset_index d) = columns d"
  by (simp add: reset_index_def)

lemma len_reset_index [simp]: "len (reset_index d) = len d"
  by (simp add: reset_index_def len_def)

lemma sampled_rows:
  assumes "lib_ok L"
  shows "mset (entries (rows_at \<lparr>columns = c, entries = es\<rparr> (sample_order L seed (length es)))) = mset es"
  using perm_map_nth[of "sample_order L seed (length es)" es] assms
  by (simp add: lib_ok_def)

section \<open>Both splits succeed and keep every row\<close>

lemma uniform_pieces:
  assumes "lib_ok L" "split_dataframe L df seed = Inr (tr, va, te)"
  shows "entries tr @ entries va @ entries te =
         map (\<lambda>i. entries df ! i) (fst (shuffle L (default_rng L seed) [0..<len df]))"
proof -
  let ?p = "fst (shuffle L (default_rng L seed) [0..<len df])"
  let ?t1 = "nat (py_int (6 / 10 * of_nat (len df)))"
  let ?t2 = "nat (py_int (8 / 10 * of_nat (len df)))"
  have le: "?t1 \<le> ?t2" using cut_nonneg(2)[of "len df"] by linarith
  from assms(2) have tr: "tr = rows_at df (take ?t1 ?p)"
    and va: "va = rows_at df (take (?t2 - ?t1) (drop ?t1 ?p))"
    and te: "te = rows_at df (drop ?t2 ?p)"
    by (simp_all add: split_dataframe_closed_form[OF assms(1)] Let_def)
  have "entries tr @ entries va @ entries te =
        map (\<lambda>i. entries df ! i) (take ?t1 ?p @ take (?t2 - ?t1) (drop ?t1 ?p) @ drop ?t2 ?p)"
    unfolding tr va te entries_rows_at map_append ..
  also have "take ?t1 ?p @ take (?t2 - ?t1) (drop ?t1 ?p) @ drop ?t2 ?p = ?p"
    by (rule three_pieces[OF le])
  finally show ?thesis .
qed

lemma uniform_rows:
  assumes "lib_ok L" "split_dataframe L df seed = Inr (tr, va, te)"
  shows "mset (entries tr) + mset (entries va) + mset (entries te) = mset (entries df)"
proof -
  let ?p = "fst (shuffle L (default_rng L seed) [0..<len df])"
  have "mset ?p = mset [0..<length (entries df)]"
    using assms(1) by (simp add: lib_ok_def len_def)
  then have "mset (map (\<lambda>i. entries df ! i) ?p) = mset (entries df)" by (rule perm_map_nth)
  then have "mset (entries tr @ entries va @ entries te) = mset (entries df)"
    using uniform_pieces[OF assms] by simp
  then show ?thesis by (simp add: ac_simps)
qed

lemma uniform_succeeds:
  assumes "lib_ok L"
  shows "\<exists>tr va te. split_dataframe L df seed = Inr (tr, va, te)"
  by (simp add: split_dataframe_closed_form[OF assms] Let_def)

lemma mset_len:
  assumes "mset (entries a) + mset (entries b) + mset (entries c) = mset (entries d)"
  shows "len a + len b + len c = len d"
proof -
  have "size (mset (entries a) + mset (entries b) + mset (entries c)) = size (mset (entries d))"
    using assms by simp
  then show ?thesis by (simp add: len_def)
qed

lemma pool_frame_rows: "lib_ok L \<Longrightarrow> mset (entries (pool_frame L seed parts)) = mset (rows_of parts)"
  unfolding pool_frame_def by (rule sampled_rows)

lemma pooled_pool_frame:
  "lib_ok L \<Longrightarrow> parts \<noteq> [] \<Longrightarrow> pooled L seed parts = Inr (reset_index (pool_frame L seed parts))"
  unfolding pool_frame_def by (rule pooled_closed_form)

lemma strat_loop_lengths:
  assumes "strat_loop L r g groups (A, B, C) = Inr (A', B', C')"
  shows "length A' = length A + length groups \<and> length B' = length B + length groups \<and>
         length C' = length C + length groups"
  using assms
proof (induction groups arbitrary: g A B C)
  case Nil
  then show ?case by simp
next
  case (Cons kg groups)
  obtain k grp where kg: "kg = (k, grp)" by (cases kg)
  from Cons.prems obtain g' tr va te where
    "strat_loop L r g' groups (A @ [tr], B @ [va], C @ [te]) = Inr (A', B', C')"
    by (auto simp: kg split: sum.splits)
  from Cons.IH[OF this] show ?case by simp
qed

lemma stratified_closed_form:
  assumes "lib_ok L" "entries df \<noteq> []" "count_list (columns df) label_col = 1"
    and "ratios_ok r" "0 \<le> fst r" "0 \<le> fst (snd r)"
  shows "\<exists>groups trs vas tes.
           groupby df label_col = Inr groups \<and> groups \<noteq> [] \<and>
           strat_loop L r (default_rng L seed) groups ([], [], []) = Inr (trs, vas, tes) \<and>
           stratified_split L df label_col seed r =
             Inr (reset_index (pool_frame L seed trs), reset_index (pool_frame L seed vas),
                  reset_index (pool_frame L seed tes))"
proof -
  obtain groups where g: "groupby df label_col = Inr groups"
    using groupby_Inr[OF assms(3)] by blast
  have ne: "groups \<noteq> []" using groupby_Nil[OF g] assms(2) by simp
  obtain trs vas tes where
    l: "strat_loop L r (default_rng L seed) groups ([], [], []) = Inr (trs, vas, tes)"
    using strat_loop_closed_form[OF assms(1,5,6), of "default_rng L seed" groups "[]" "[]" "[]"] by blast
  from strat_loop_lengths[OF l] ne have "trs \<noteq> []" "vas \<noteq> []" "tes \<noteq> []" by auto
  then have "stratified_split L df label_col seed r =
             Inr (reset_index (pool_frame L seed trs), reset_index (pool_frame L seed vas),
                  reset_index (pool_frame L seed tes))"
    using assms(4) by (simp add: stratified_split_def g l pooled_pool_frame[OF assms(1)])
  with g ne l show ?thesis by blast
qed

lemma stratified_rows:
  assumes "lib_ok L" "0 \<le> fst r" "0 \<le> fst (snd r)"
    and "groupby df label_col = Inr groups"
    and "strat_loop L r g groups ([], [], []) = Inr (trs, vas, tes)"
  shows "mset (entries (pool_frame L seed trs)) + mset (entries (pool_frame L seed vas)) +
         mset (entries (pool_frame L seed tes)) = mset (entries df)"
  using strat_loop_mset[OF assms(1-3) assms(5)] groupby_rows[OF assms(4)]
  by (simp add: pool_frame_rows[OF assms(1)])

section \<open>Completeness of the partitions\<close>

lemma mset_rotate_eq: "mset (rotate n xs) = mset xs"
proof -
  have "mset (drop k xs @ take k xs) = mset (take k xs @ drop k xs)" for k
    by (simp only: mset_append add.commute)
  then show ?thesis by (simp only: rotate_drop_take append_take_drop_id)
qed

lemma demo_lib_ok: "lib_ok demo_lib"
  by (simp add: lib_ok_def demo_lib_def mset_rotate_eq)

lemma default_ratios_ok: "ratios_ok default_ratios"
  by (simp add: ratios_ok_def default_ratios_def)

lemma default_ratios_nonneg:
  "0 \<le> fst default_ratios" "0 \<le> fst (snd default_ratios)"
  "fst default_ratios + fst (snd default_ratios) \<le> 1"
  by (simp_all add: default_ratios_def)

lemma demo_table_facts:
  "entries demo_table \<noteq> []" "count_list (columns demo_table) ''protocol_type'' = 1"
  by (simp_all add: demo_table_def)



section \<open>Counting rows by label\<close>

lemma floor_sum_le:
  assumes "0 \<le> fst r" "0 \<le> fst (snd r)" "fst r + fst (snd r) \<le> 1"
  shows "n_train r n + n_val r n \<le> n"
proof -
  let ?a = "fst r * of_nat n" and ?b = "fst (snd r) * of_nat n"
  have a: "0 \<le> ?a" and b: "0 \<le> ?b" using assms by simp_all
  have "?a + ?b = (fst r + fst (snd r)) * of_nat n" by (simp add: algebra_simps)
  also have "\<dots> \<le> 1 * of_nat n" using assms(3) by (intro mult_right_mono) simp_all
  finally have "?a + ?b \<le> of_nat n" by simp
  then have "\<lfloor>?a + ?b\<rfloor> \<le> int n" by (simp add: floor_le_iff)
  moreover have "\<lfloor>?a\<rfloor> + \<lfloor>?b\<rfloor> \<le> \<lfloor>?a + ?b\<rfloor>" by (rule le_floor_add)
  moreover have "0 \<le> \<lfloor>?a\<rfloor>" "0 \<le> \<lfloor>?b\<rfloor>" using a b by simp_all
  ultimately show ?thesis unfolding n_train_def n_val_def by linarith
qed

lemma n_train_0 [simp]: "n_train r 0 = 0"
  by (simp add: n_train_def)

lemma n_val_0 [simp]: "n_val r 0 = 0"
  by (simp add: n_val_def)

lemma count_list_const:
  "\<forall>x\<in>set xs. f x = c \<Longrightarrow> count_list (map f xs) k = (if c = k then length xs else 0)"
  by (induction xs) auto

lemma count_rows_at:
  assumes "\<forall>e\<in>set (entries grp). f e = k'" "set idx \<subseteq> {..<len grp}"
  shows "count_list (map f (entries (rows_at grp idx))) k = (if k' = k then length idx else 0)"
proof -
  have "\<forall>i\<in>set idx. f (entries grp ! i) = k'"
    using assms by (auto simp: len_def)
  then have "count_list (map (\<lambda>i. f (entries grp ! i)) idx) k = (if k' = k then length idx else 0)"
    by (rule count_list_const)
  then show ?thesis by (simp add: comp_def)
qed

lemma group_part_counts:
  assumes "mset p = mset [0..<len grp]" "\<forall>e\<in>set (entries grp). f e = k'"
    and "n_train r (len grp) + n_val r (len grp) \<le> len grp"
  shows "count_list (map f (entries (train_part r grp p))) k = (if k' = k then n_train r (len grp) else 0)"
    and "count_list (map f (entries (val_part r grp p))) k = (if k' = k then n_val r (len grp) else 0)"
    and "count_list (map f (entries (test_part r grp p))) k =
           (if k' = k then len grp - n_train r (len grp) - n_val r (len grp) else 0)"
proof -
  have l: "length p = len grp" using assms(1) by (metis mset_eq_length length_upt diff_zero)
  have s: "set p \<subseteq> {..<len grp}" using assms(1) by (metis mset_eq_setD set_upt atLeast0LessThan order_refl)
  have a: "set (take i p) \<subseteq> {..<len grp}" for i using s set_take_subset by fastforce
  have b: "set (drop i p) \<subseteq> {..<len grp}" for i using s set_drop_subset by fastforce
  have c: "set (take j (drop i p)) \<subseteq> {..<len grp}" for i j using b set_take_subset by fastforce
  show "count_list (map f (entries (train_part r grp p))) k = (if k' = k then n_train r (len grp) else 0)"
    unfolding train_part_def count_rows_at[OF assms(2) a] using assms(3) l by simp
  show "count_list (map f (entries (val_part r grp p))) k = (if k' = k then n_val r (len grp) else 0)"
    unfolding val_part_def count_rows_at[OF assms(2) c] using assms(3) l by simp
  show "count_list (map f (entries (test_part r grp p))) k =
           (if k' = k then len grp - n_train r (len grp) - n_val r (len grp) else 0)"
    unfolding test_part_def count_rows_at[OF assms(2) b] using assms(3) l by simp
qed

lemma key_total_simps [simp]:
  "key_total h k [] = 0"
  "key_total h k ((k', grp) # groups) = (if k' = k then h (len grp) else 0) + key_total h k groups"
  by (simp_all add: key_total_def)

lemma strat_loop_counts:
  assumes "lib_ok L" "0 \<le> fst r" "0 \<le> fst (snd r)" "fst r + fst (snd r) \<le> 1"
    and "\<forall>kg\<in>set groups. \<forall>e\<in>set (entries (snd kg)). f e = fst kg"
    and "strat_loop L r g groups (A, B, C) = Inr (A', B', C')"
  shows "count_list (map f (rows_of A')) k =
           count_list (map f (rows_of A)) k + key_total (n_train r) k groups \<and>
         count_list (map f (rows_of B')) k =
           count_list (map f (rows_of B)) k + key_total (n_val r) k groups \<and>
         count_list (map f (rows_of C')) k =
           count_list (map f (rows_of C)) k + key_total (\<lambda>n. n - n_train r n - n_val r n) k groups"
  using assms(5,6)
proof (induction groups arbitrary: g A B C)
  case Nil
  then show ?case by simp
next
  case (Cons kg groups)
  obtain k' grp where kg: "kg = (k', grp)" by (cases kg)
  let ?p = "fst (shuffle L g [0..<len grp])"
  have perm: "mset ?p = mset [0..<len grp]" using assms(1) by (simp add: lib_ok_def)
  have pure: "\<forall>e\<in>set (entries grp). f e = k'" using Cons.prems(1) by (simp add: kg)
  have rest: "\<forall>kg\<in>set groups. \<forall>e\<in>set (entries (snd kg)). f e = fst kg"
    using Cons.prems(1) by simp
  from Cons.prems(2) have "strat_loop L r (snd (shuffle L g [0..<len grp])) groups
      (A @ [train_part r grp ?p], B @ [val_part r grp ?p], C @ [test_part r grp ?p]) = Inr (A', B', C')"
    by (simp add: kg split_group_parts[OF assms(1-3)])
  from Cons.IH[OF rest this]
    group_part_counts[OF perm pure floor_sum_le[OF assms(2-4)], of k]
  show ?case by (simp add: kg)
qed

lemma filter_count: "length (filter (\<lambda>e. f e = k) es) = count_list (map f es) k"
  by (induction es) auto

lemma key_total_distinct:
  assumes "distinct ks"
  shows "key_total h k (map (\<lambda>k'. (k', F k')) ks) = (if k \<in> set ks then h (len (F k)) else 0)"
  using assms by (induction ks) auto

lemma groupby_key_total:
  assumes "groupby df label_col = Inr groups" "h 0 = 0"
  shows "key_total h k groups = h (label_count df label_col k)"
proof -
  let ?pos = "col_pos (columns df) label_col"
  let ?F = "\<lambda>k. df\<lparr>entries := filter (\<lambda>e. label_of ?pos e = k) (entries df)\<rparr>"
  from assms(1) have g: "groups = map (\<lambda>k. (k, ?F k)) (group_keys ?pos (entries df))"
    by (auto simp: groupby_def Let_def split: if_splits)
  have l: "len (?F k) = label_count df label_col k"
    by (simp add: len_def label_count_def filter_count)
  show ?thesis
  proof (cases "k \<in> set (group_keys ?pos (entries df))")
    case True
    then show ?thesis
      unfolding g key_total_distinct[OF group_keys_distinct] l by simp
  next
    case False
    then have "k \<notin> set (map (label_of ?pos) (entries df))"
      by (simp add: group_keys_set)
    then have "label_count df label_col k = 0"
      unfolding label_count_def by (rule count_notin)
    with False show ?thesis
      unfolding g key_total_distinct[OF group_keys_distinct] using assms(2) by simp
  qed
qed

lemma groupby_pure:
  assumes "groupby df label_col = Inr groups"
  shows "\<forall>kg\<in>set groups. \<forall>e\<in>set (entries (snd kg)).
           label_of (col_pos (columns df) label_col) e = fst kg"
  using assms by (auto simp: groupby_def Let_def split: if_splits)

lemma iloc_columns: "iloc df idx = Inr d \<Longrightarrow> columns d = columns df"
  by (auto simp: iloc_def split: if_splits)

lemma split_group_columns:
  assumes "split_group L r g grp = Inr (g', tr, va, te)"
  shows "columns tr = columns grp \<and> columns va = columns grp \<and> columns te = columns grp"
  using assms unfolding split_group_def Let_def
  by (auto simp: case_prod_beta split: sum.splits dest: iloc_columns)

lemma strat_loop_columns:
  assumes "strat_loop L r g groups (A, B, C) = Inr (A', B', C')"
    and "\<forall>kg\<in>set groups. columns (snd kg) = c"
    and "\<forall>t\<in>set A \<union> set B \<union> set C. columns t = c"
  shows "\<forall>t\<in>set A' \<union> set B' \<union> set C'. columns t = c"
  using assms
proof (induction groups arbitrary: g A B C)
  case Nil
  then show ?case by simp
next
  case (Cons kg groups)
  obtain k grp where kg: "kg = (k, grp)" by (cases kg)
  from Cons.prems(1) obtain g' tr va te where
    sg: "split_group L r g grp = Inr (g', tr, va, te)" and
    l: "strat_loop L r g' groups (A @ [tr], B @ [va], C @ [te]) = Inr (A', B', C')"
    by (auto simp: kg split: sum.splits)
  have "columns grp = c" using Cons.prems(2) by (simp add: kg)
  with split_group_columns[OF sg] Cons.prems(3)
  have "\<forall>t\<in>set (A @ [tr]) \<union> set (B @ [va]) \<union> set (C @ [te]). columns t = c" by auto
  moreover have "\<forall>kg\<in>set groups. columns (snd kg) = c" using Cons.prems(2) by simp
  ultimately show ?case using Cons.IH[OF l] by blast
qed

lemma label_of_reset_index:
  "map (label_of pos) (entries (reset_index d)) = map (label_of pos) (entries d)"
proof -
  have "map (label_of pos) es = map (\<lambda>row. if pos < length row then row ! pos else None) (map snd es)"
    for es :: "(nat \<times> 'a row) list"
    by (simp add: label_of_def comp_def)
  then show ?thesis by (metis entries_reset_index)
qed

lemma count_list_mset: "mset xs = mset ys \<Longrightarrow> count_list (map f xs) k = count_list (map f ys) k"
  by (metis count_mset mset_map)

lemma pooled_label_count:
  assumes "lib_ok L" "parts \<noteq> []" "\<forall>t\<in>set parts. columns t = columns df"
  shows "label_count (reset_index (pool_frame L seed parts)) label_col k =
         count_list (map (label_of (col_pos (columns df) label_col)) (rows_of parts)) k"
proof -
  have "hd parts \<in> set parts" using assms(2) by simp
  then have c: "columns (pool_frame L seed parts) = columns df"
    using assms(3) by (simp add: pool_frame_def)
  show ?thesis
    unfolding label_count_def columns_reset_index c label_of_reset_index
    by (rule count_list_mset[OF pool_frame_rows[OF assms(1)]])
qed

lemma pooled_columns:
  assumes "parts \<noteq> []" "\<forall>t\<in>set parts. columns t = c"
  shows "columns (reset_index (pool_frame L seed parts)) = c"
proof -
  have "hd parts \<in> set parts" using assms(1) by simp
  then show ?thesis using assms(2) by (simp add: pool_frame_def)
qed

section \<open>Per-label counts of the stratified split\<close>

lemma stratified_parts:
  assumes "lib_ok L" "entries df \<noteq> []" "count_list (columns df) label_col = 1"
    and "ratios_ok r" "0 \<le> fst r" "0 \<le> fst (snd r)"
  shows "\<exists>groups trs vas tes.
           groupby df label_col = Inr groups \<and>
           strat_loop L r (default_rng L seed) groups ([], [], []) = Inr (trs, vas, tes) \<and>
           (trs \<noteq> [] \<and> vas \<noteq> [] \<and> tes \<noteq> []) \<and>
           (\<forall>t\<in>set trs \<union> set vas \<union> set tes. columns t = columns df) \<and>
           stratified_split L df label_col seed r =
             Inr (reset_index (pool_frame L seed trs), reset_index (pool_frame L seed vas),
                  reset_index (pool_frame L seed tes))"
proof -
  obtain groups trs vas tes where g: "groupby df label_col = Inr groups" and ne: "groups \<noteq> []"
    and l: "strat_loop L r (default_rng L seed) groups ([], [], []) = Inr (trs, vas, tes)"
    and s: "stratified_split L df label_col seed r =
             Inr (reset_index (pool_frame L seed trs), reset_index (pool_frame L seed vas),
                  reset_index (pool_frame L seed tes))"
    using stratified_closed_form[OF assms] by blast
  from strat_loop_lengths[OF l] ne have n: "trs \<noteq> [] \<and> vas \<noteq> [] \<and> tes \<noteq> []" by auto
  have gc: "\<forall>kg\<in>set groups. columns (snd kg) = columns df"
    using groupby_columns[OF g] by blast
  have e: "\<forall>t\<in>set [] \<union> set [] \<union> set []. columns t = columns df" by simp
  have c: "\<forall>t\<in>set trs \<union> set vas \<union> set tes. columns t = columns df"
    by (rule strat_loop_columns[OF l gc e])
  show ?thesis
    apply (rule exI[of _ groups])
    apply (rule exI[of _ trs])
    apply (rule exI[of _ vas])
    apply (rule exI[of _ tes])
    apply (rule conjI[OF g conjI[OF l conjI[OF n conjI[OF c s]]]])
    done
qed

lemma stratified_counts:
  assumes "lib_ok L" "entries df \<noteq> []" "count_list (columns df) label_col = 1"
    and "ratios_ok r" "0 \<le> fst r" "0 \<le> fst (snd r)" "fst r + fst (snd r) \<le> 1"
  shows "\<exists>tr va te. stratified_split L df label_col seed r = Inr (tr, va, te) \<and>
           (\<forall>k. label_count tr label_col k = n_train r (label_count df label_col k) \<and>
                label_count va label_col k = n_val r (label_count df label_col k) \<and>
                label_count te label_col k =
                  label_count df label_col k - n_train r (label_count df label_col k)
                    - n_val r (label_count df label_col k))"
proof -
  obtain groups trs vas tes where g: "groupby df label_col = Inr groups"
    and l: "strat_loop L r (default_rng L seed) groups ([], [], []) = Inr (trs, vas, tes)"
    and n: "trs \<noteq> [] \<and> vas \<noteq> [] \<and> tes \<noteq> []"
    and c: "\<forall>t\<in>set trs \<union> set vas \<union> set tes. columns t = columns df"
    and s: "stratified_split L df label_col seed r =
             Inr (reset_index (pool_frame L seed trs), reset_index (pool_frame L seed vas),
                  reset_index (pool_frame L seed tes))"
    using stratified_parts[OF assms(1-6)] by blast
  let ?f = "label_of (col_pos (columns df) label_col)"
  let ?g = "\<lambda>k. label_count df label_col k"
  have ctr: "\<forall>t\<in>set trs. columns t = columns df" and cva: "\<forall>t\<in>set vas. columns t = columns df"
    and cte: "\<forall>t\<in>set tes. columns t = columns df" using c by auto
  have ntr: "trs \<noteq> []" and nva: "vas \<noteq> []" and nte: "tes \<noteq> []" using n by auto
  have k1: "key_total (n_train r) k groups = n_train r (?g k)" for k
    by (rule groupby_key_total[OF g]) simp
  have k2: "key_total (n_val r) k groups = n_val r (?g k)" for k
    by (rule groupby_key_total[OF g]) simp
  have k3: "key_total (\<lambda>n. n - n_train r n - n_val r n) k groups
      = ?g k - n_train r (?g k) - n_val r (?g k)" for k
    by (rule groupby_key_total[OF g]) simp
  have cnt: "count_list (map ?f (rows_of trs)) k = n_train r (?g k) \<and>
        count_list (map ?f (rows_of vas)) k = n_val r (?g k) \<and>
        count_list (map ?f (rows_of tes)) k = ?g k - n_train r (?g k) - n_val r (?g k)" for k
    using strat_loop_counts[OF assms(1,5,6,7) groupby_pure[OF g] l, of k]
    unfolding k1 k2 k3 by simp
  have "label_count (reset_index (pool_frame L seed trs)) label_col k = n_train r (?g k) \<and>
        label_count (reset_index (pool_frame L seed vas)) label_col k = n_val r (?g k) \<and>
        label_count (reset_index (pool_frame L seed tes)) label_col k =
          ?g k - n_train r (?g k) - n_val r (?g k)" for k
    unfolding pooled_label_count[OF assms(1) ntr ctr] pooled_label_count[OF assms(1) nva cva]
      pooled_label_count[OF assms(1) nte cte]
    by (rule cnt)
  with s show ?thesis by blast
qed

section \<open>The proportion law of the stratified split\<close>

lemma abc_table_entries: "entries abc_table \<noteq> []"
proof -
  have "length (entries abc_table) = 100" by (simp add: abc_table_def)
  then show ?thesis by auto
qed

lemma abc_table_columns: "count_list (columns abc_table) ''label'' = 1"
  by (simp add: abc_table_def)

lemma label_of_zip:
  "length ns = length rows \<Longrightarrow> map (label_of pos) (zip ns rows) =
     map (\<lambda>row. if pos < length row then row ! pos else None) rows"
  by (induction ns rows rule: list_induct2) (simp_all add: label_of_def)

lemma count_list_replicate: "count_list (replicate n x) y = (if x = y then n else 0)"
  by (induction n) auto

lemma abc_table_counts:
  "label_count abc_table ''label'' (Some ''A'') = 50"
  "label_count abc_table ''label'' (Some ''B'') = 30"
  "label_count abc_table ''label'' (Some ''C'') = 20"
  by (simp_all add: label_count_def abc_table_def label_of_zip count_list_replicate)



section \<open>Rows with a missing label\<close>

lemma groupby_missing_group:
  assumes "groupby df label_col = Inr groups"
    and "\<exists>e\<in>set (entries df). label_of (col_pos (columns df) label_col) e = None"
  shows "(None, df\<lparr>entries := filter (\<lambda>e. label_of (col_pos (columns df) label_col) e = None)
                              (entries df)\<rparr>) \<in> set groups"
proof -
  let ?pos = "col_pos (columns df) label_col"
  from assms(1) have g: "groups = map (\<lambda>k. (k, df\<lparr>entries := filter (\<lambda>e. label_of ?pos e = k) (entries df)\<rparr>))
            (group_keys ?pos (entries df))"
    by (auto simp: groupby_def Let_def split: if_splits)
  have "None \<in> set (group_keys ?pos (entries df))"
    using assms(2) by (simp add: group_keys_mem)
  then show ?thesis unfolding g by (simp add: image_iff)
qed

lemma demo_table_missing:
  "label_count demo_table ''protocol_type'' None = 1"
  by (simp add: label_count_def demo_table_def label_of_def)



section \<open>Index labels and columns of the outputs\<close>

lemma rows_at_subset:
  "set idx \<subseteq> {..<len df} \<Longrightarrow> set (entries (rows_at df idx)) \<subseteq> set (entries df)"
  by (auto simp: len_def)

lemma uniform_shape:
  assumes "lib_ok L" "split_dataframe L df seed = Inr (tr, va, te)"
  shows "columns tr = columns df \<and> columns va = columns df \<and> columns te = columns df \<and>
         set (entries tr) \<subseteq> set (entries df) \<and> set (entries va) \<subseteq> set (entries df) \<and>
         set (entries te) \<subseteq> set (entries df)"
proof -
  let ?p = "fst (shuffle L (default_rng L seed) [0..<len df])"
  let ?t1 = "nat (py_int (6 / 10 * of_nat (len df)))"
  let ?t2 = "nat (py_int (8 / 10 * of_nat (len df)))"
  have sub: "set ?p \<subseteq> {..<len df}" using shuffle_set[OF assms(1)] by blast
  have a: "set (take k ?p) \<subseteq> {..<len df}" for k using sub set_take_subset by fastforce
  have b: "set (drop k ?p) \<subseteq> {..<len df}" for k using sub set_drop_subset by fastforce
  have c: "set (take j (drop k ?p)) \<subseteq> {..<len df}" for j k using b set_take_subset by fastforce
  from assms(2) have tr: "tr = rows_at df (take ?t1 ?p)"
    and va: "va = rows_at df (take (?t2 - ?t1) (drop ?t1 ?p))"
    and te: "te = rows_at df (drop ?t2 ?p)"
    by (simp_all add: split_dataframe_closed_form[OF assms(1)] Let_def)
  show ?thesis
    unfolding tr va te columns_rows_at
    using rows_at_subset[OF a] rows_at_subset[OF b] rows_at_subset[OF c] by blast
qed


lemma demo_uniform_value:
  "split_dataframe demo_lib demo_table 42 =
     Inr (\<lparr>columns = [''duration'', ''protocol_type''],
            entries = [(2, [Some ''0'', Some ''tcp'']), (3, [Some ''5'', None]),
                       (4, [Some ''1'', Some ''tcp''])]\<rparr>,
          \<lparr>columns = [''duration'', ''protocol_type''],
            entries = [(0, [Some ''0'', Some ''tcp''])]\<rparr>,
          \<lparr>columns = [''duration'', ''protocol_type''],
            entries = [(1, [Some ''2'', Some ''udp''])]\<rparr>)"
  by code_simp


section \<open>The cut points of the uniform split\<close>

lemma split_dataframe_cuts:
  assumes "lib_ok L"
  shows "split_dataframe L df seed =
     Inr (rows_at df (take (6 * len df div 10) (fst (shuffle L (default_rng L seed) [0..<len df]))),
          rows_at df (take (8 * len df div 10 - 6 * len df div 10)
            (drop (6 * len df div 10) (fst (shuffle L (default_rng L seed) [0..<len df])))),
          rows_at df (drop (8 * len df div 10) (fst (shuffle L (default_rng L seed) [0..<len df]))))"
  by (rule split_dataframe_closed_form[OF assms, unfolded Let_def cut_60 cut_80])


section \<open>Fixed cut points and the empty table\<close>

lemma abc_table_len: "len abc_table = 100"
  by (simp add: len_def abc_table_def)



lemma empty_rows_at: "entries df = [] \<Longrightarrow> rows_at df [] = df"
  by (simp add: rows_at_def)




section \<open>Which errors can arise\<close>

lemma iloc_error: "iloc df idx = Inl e \<Longrightarrow> e = IndexError"
  by (auto simp: iloc_def split: if_splits)

lemma split_group_error: "split_group L r g grp = Inl e \<Longrightarrow> e = IndexError"
  unfolding split_group_def Let_def
  by (auto simp: case_prod_beta split: sum.splits dest: iloc_error)

lemma strat_loop_error: "strat_loop L r g groups parts = Inl e \<Longrightarrow> e = IndexError"
proof (induction groups arbitrary: g parts)
  case Nil
  then show ?case by simp
next
  case (Cons kg groups)
  obtain k grp where kg: "kg = (k, grp)" by (cases kg)
  obtain A B C where parts: "parts = (A, B, C)" by (cases parts)
  show ?case
  proof (cases "split_group L r g grp")
    case (Inl e')
    then show ?thesis using Cons.prems split_group_error[OF Inl] by (simp add: kg parts)
  next
    case (Inr x)
    obtain g' tr va te where x: "x = (g', tr, va, te)" by (cases x)
    from Cons.prems have "strat_loop L r g' groups (A @ [tr], B @ [va], C @ [te]) = Inl e"
      by (simp add: kg parts Inr x)
    then show ?thesis by (rule Cons.IH)
  qed
qed

lemma pooled_error: "pooled L seed parts = Inl e \<Longrightarrow> e = ValueError \<or> e = IndexError"
  unfolding pooled_def concat_frames_def sample_def
  by (auto split: sum.splits list.splits dest: iloc_error)

lemma groupby_error:
  "groupby df label_col = Inl e \<Longrightarrow>
     (e = KeyError \<and> label_col \<notin> set (columns df)) \<or>
     (e = ValueError \<and> label_col \<in> set (columns df))"
  by (auto simp: groupby_def Let_def split: if_splits)

lemma stratified_error_cases:
  assumes "stratified_split L df label_col seed r = Inl e"
  shows "(e = AssertionError \<and> \<not> ratios_ok r) \<or>
         (e = KeyError \<and> ratios_ok r \<and> label_col \<notin> set (columns df)) \<or>
         (e = ValueError \<and> ratios_ok r \<and> label_col \<in> set (columns df)) \<or>
         (e = IndexError \<and> ratios_ok r \<and> label_col \<in> set (columns df))"
proof (cases "ratios_ok r")
  case False
  then show ?thesis using assms by (simp add: stratified_split_def)
next
  case True
  show ?thesis
  proof (cases "groupby df label_col")
    case (Inl e')
    then have "e = e'" using assms True by (simp add: stratified_split_def)
    then show ?thesis using groupby_error[OF Inl] True by auto
  next
    case (Inr groups)
    then have c: "label_col \<in> set (columns df)"
      by (auto simp: groupby_def split: if_splits)
    have "e = ValueError \<or> e = IndexError"
      using assms True Inr
      by (auto simp: stratified_split_def split: sum.splits
          dest: strat_loop_error pooled_error)
    then show ?thesis using True c by auto
  qed
qed

lemma uniform_error: "split_dataframe L df seed = Inl e \<Longrightarrow> e = IndexError"
  unfolding split_dataframe_def Let_def
  by (auto simp: case_prod_beta split: sum.splits dest: iloc_error)

section \<open>Configuration errors\<close>




section \<open>One generator for all groups\<close>

lemma perms_seq_nth:
  assumes "i < length ns" "i < length ms" "take (Suc i) ms = take (Suc i) ns"
  shows "perms_seq L g ms ! i = perms_seq L g ns ! i"
proof -
  have "perms_seq L g ms ! i = take (Suc i) (perms_seq L g ms) ! i" by simp
  also have "\<dots> = perms_seq L g (take (Suc i) ns) ! i"
    by (simp only: perms_seq_take assms(3))
  also have "\<dots> = take (Suc i) (perms_seq L g ns) ! i"
    by (simp only: perms_seq_take)
  also have "\<dots> = perms_seq L g ns ! i" by simp
  finally show ?thesis .
qed




section \<open>What a call leaves in the store\<close>

lemma new_simps [simp]: "fst (new h x) = length h" "snd (new h x) = h @ [x]"
  by (simp_all add: new_def)

lemma length_shuffle_at [simp]: "length (shuffle_at L h rng arr) = length h"
  by (simp add: shuffle_at_def case_prod_beta)

lemma length_append_at [simp]: "length (append_at h lst a) = length h"
  by (simp add: append_at_def)

lemma take_shuffle_at:
  "n \<le> rng \<Longrightarrow> n \<le> arr \<Longrightarrow> take n (shuffle_at L h rng arr) = take n h"
  by (simp add: shuffle_at_def case_prod_beta)

lemma take_append_at: "n \<le> lst \<Longrightarrow> take n (append_at h lst a) = take n h"
  by (simp add: append_at_def)

lemma iloc_at_Inr:
  "iloc_at h df idx = Inr (a, h') \<Longrightarrow> a = length h \<and> (\<exists>d. h' = h @ [Frame d])"
  by (auto simp: iloc_at_def new_def split: sum.splits)

lemma take_iloc_at:
  "iloc_at h df idx = Inr (a, h') \<Longrightarrow> n \<le> length h \<Longrightarrow>
     take n h' = take n h \<and> length h' = Suc (length h)"
  by (auto dest!: iloc_at_Inr)

lemma uniform_keeps_store:
  assumes "split_dataframe_at L h df seed = Inr (res, h')"
  shows "take (length h) h' = h"
proof -
  let ?n = "length h"
  let ?h2 = "(h @ [Generator (default_rng L seed)]) @ [Ints [0..<len (the_frame (h ! df))]]"
  let ?h3 = "shuffle_at L ?h2 ?n (Suc ?n)"
  have t3: "take ?n ?h3 = h" by (simp add: take_shuffle_at)
  have l3: "?n \<le> length ?h3" by simp
  from assms obtain a4 h4 a5 h5 a6 i1 i2 i3 where
    s1: "iloc_at ?h3 df i1 = Inr (a4, h4)" and
    s2: "iloc_at h4 df i2 = Inr (a5, h5)" and
    s3: "iloc_at h5 df i3 = Inr (a6, h')"
    unfolding split_dataframe_at_def Let_def
    by (auto simp: case_prod_beta new_def split: sum.splits)
  from take_iloc_at[OF s1 l3] t3 l3 have t4: "take ?n h4 = h" and l4: "?n \<le> length h4" by simp_all
  from take_iloc_at[OF s2 l4] t4 l4 have t5: "take ?n h5 = h" and l5: "?n \<le> length h5" by simp_all
  from take_iloc_at[OF s3 l5] t5 show ?thesis by simp
qed

lemma split_group_at_keeps:
  assumes "split_group_at L r h rng grp tp vp tep = Inr h'"
    and "n \<le> rng" "n \<le> tp" "n \<le> vp" "n \<le> tep" "n \<le> length h"
  shows "take n h' = take n h \<and> length h \<le> length h'"
proof -
  let ?h1 = "h @ [Ints [0..<len (the_frame (h ! grp))]]"
  let ?h2 = "shuffle_at L ?h1 rng (length h)"
  have t2: "take n ?h2 = take n h" using assms(2,6) by (simp add: take_shuffle_at)
  have l2: "length ?h2 = Suc (length h)" by simp
  from assms(1) obtain a3 h3 a5 h5 a7 h7 i1 i2 i3 where
    s1: "iloc_at ?h2 grp i1 = Inr (a3, h3)" and
    s2: "iloc_at (append_at h3 tp a3) grp i2 = Inr (a5, h5)" and
    s3: "iloc_at (append_at h5 vp a5) grp i3 = Inr (a7, h7)" and
    e: "h' = append_at h7 tep a7"
    unfolding split_group_at_def Let_def
    by (auto simp: case_prod_beta new_def split: sum.splits)
  have n2: "n \<le> length ?h2" using assms(6) by simp
  from take_iloc_at[OF s1 n2] t2 have t3: "take n h3 = take n h" and l3: "length h3 = Suc (Suc (length h))"
    by simp_all
  have n4: "n \<le> length (append_at h3 tp a3)" using l3 assms(6) by simp
  from take_iloc_at[OF s2 n4] t3 assms(3)
  have t5: "take n h5 = take n h" and l5: "length h5 = Suc (Suc (Suc (length h)))"
    by (simp_all add: take_append_at l3)
  have n6: "n \<le> length (append_at h5 vp a5)" using l5 assms(6) by simp
  from take_iloc_at[OF s3 n6] t5 assms(4)
  have t7: "take n h7 = take n h" and l7: "length h7 = Suc (Suc (Suc (Suc (length h))))"
    by (simp_all add: take_append_at l5)
  show ?thesis unfolding e using t7 l7 assms(5) by (simp add: take_append_at)
qed

lemma strat_loop_at_keeps:
  assumes "strat_loop_at L r h rng groups tp vp tep = Inr h'"
    and "n \<le> rng" "n \<le> tp" "n \<le> vp" "n \<le> tep" "n \<le> length h"
  shows "take n h' = take n h \<and> length h \<le> length h'"
  using assms(1,6)
proof (induction groups arbitrary: h)
  case Nil
  then show ?case by simp
next
  case (Cons kg groups)
  obtain k grp where kg: "kg = (k, grp)" by (cases kg)
  from Cons.prems(1) obtain h1 where
    s: "split_group_at L r h rng grp tp vp tep = Inr h1" and
    l: "strat_loop_at L r h1 rng groups tp vp tep = Inr h'"
    by (auto simp: kg split: sum.splits)
  from split_group_at_keeps[OF s assms(2-5) Cons.prems(2)]
  have a: "take n h1 = take n h" and b: "length h \<le> length h1" by simp_all
  have "n \<le> length h1" using b Cons.prems(2) by simp
  from Cons.IH[OF l this] a b show ?case by simp
qed

lemma pooled_at_keeps:
  assumes "pooled_at L seed h parts = Inr (a, h')" "n \<le> length h"
  shows "take n h' = take n h \<and> length h \<le> length h'"
  using assms unfolding pooled_at_def Let_def
  by (auto simp: case_prod_beta new_def split: sum.splits)

lemma groupby_at_keeps:
  assumes "groupby_at h df label_col = Inr (groups, h')" "n \<le> length h"
  shows "take n h' = take n h \<and> length h \<le> length h'"
  using assms unfolding groupby_at_def
  by (auto split: sum.splits)

lemma stratified_keeps_store:
  assumes "stratified_split_at L h df label_col seed r = Inr (res, h')"
  shows "take (length h) h' = h"
proof -
  let ?n = "length h"
  let ?h4 = "(((h @ [Generator (default_rng L seed)]) @ [Refs []]) @ [Refs []]) @ [Refs []]"
  from assms obtain groups h5 h6 a7 h7 a8 h8 a9 where
    g: "groupby_at ?h4 df label_col = Inr (groups, h5)" and
    l: "strat_loop_at L r h5 ?n groups (Suc ?n) (Suc (Suc ?n)) (Suc (Suc (Suc ?n))) = Inr h6" and
    p1: "pooled_at L seed h6 (Suc ?n) = Inr (a7, h7)" and
    p2: "pooled_at L seed h7 (Suc (Suc ?n)) = Inr (a8, h8)" and
    p3: "pooled_at L seed h8 (Suc (Suc (Suc ?n))) = Inr (a9, h')"
    unfolding stratified_split_at_def Let_def
    by (auto simp: case_prod_beta new_def split: sum.splits if_splits)
  have n4: "?n \<le> length ?h4" by simp
  have t4: "take ?n ?h4 = h" by simp
  from groupby_at_keeps[OF g n4] t4 have t5: "take ?n h5 = h" and n5: "?n \<le> length h5" by simp_all
  from strat_loop_at_keeps[OF l _ _ _ _ n5] t5 n5
  have t6: "take ?n h6 = h" and n6: "?n \<le> length h6" by simp_all
  from pooled_at_keeps[OF p1 n6] t6 n6 have t7: "take ?n h7 = h" and n7: "?n \<le> length h7" by simp_all
  from pooled_at_keeps[OF p2 n7] t7 n7 have t8: "take ?n h8 = h" and n8: "?n \<le> length h8" by simp_all
  from pooled_at_keeps[OF p3 n8] t8 show ?thesis by simp
qed

section \<open>The store version computes the same frames\<close>

lemma iloc_at_eq:
  "iloc_at h df idx =
     (case iloc (the_frame (h ! df)) idx of
        Inl e \<Rightarrow> Inl e
      | Inr d \<Rightarrow> Inr (length h, h @ [Frame d]))"
  by (simp add: iloc_at_def new_def split: sum.splits)

lemma shuffle_at_fresh:
  "shuffle_at L (h @ [Generator g, Ints xs]) (length h) (Suc (length h)) =
     h @ [Generator (snd (shuffle L g xs)), Ints (fst (shuffle L g xs))]"
  by (simp add: shuffle_at_def case_prod_beta nth_append list_update_append)

lemma uniform_refines:
  assumes "df < length h"
  shows "frames_of (split_dataframe_at L h df seed) = split_dataframe L (the_frame (h ! df)) seed"
proof -
  let ?d = "the_frame (h ! df)"
  let ?g = "default_rng L seed"
  let ?xs = "[0..<len ?d]"
  let ?h3 = "h @ [Generator (snd (shuffle L ?g ?xs)), Ints (fst (shuffle L ?g ?xs))]"
  have h3: "shuffle_at L (h @ [Generator ?g, Ints ?xs]) (length h) (Suc (length h)) = ?h3"
    by (rule shuffle_at_fresh)
  have r: "(?h3 @ ys) ! df = h ! df" "(?h3 @ ys) ! Suc (length h) = Ints (fst (shuffle L ?g ?xs))"
    "?h3 ! df = h ! df" "?h3 ! Suc (length h) = Ints (fst (shuffle L ?g ?xs))"
    for ys using assms by (simp_all add: nth_append)
  show ?thesis
    using assms
    unfolding split_dataframe_at_def split_dataframe_def Let_def new_def case_prod_beta fst_conv snd_conv
    by (simp add: h3 iloc_at_eq frames_of_def r nth_append split: sum.splits)
qed

lemma split_group_at_eq:
  assumes "loop_ok h rng tp vp tep" "grp < length h"
    "grp \<noteq> rng" "grp \<noteq> tp" "grp \<noteq> vp" "grp \<noteq> tep"
  shows "split_group_at L r h rng grp tp vp tep =
     (case split_group L r (the_gen (h ! rng)) (the_frame (h ! grp)) of
        Inl e \<Rightarrow> Inl e
      | Inr (g', tr, va, te) \<Rightarrow>
          Inr (h[rng := Generator g',
                 tp := Refs (the_refs (h ! tp) @ [Suc (length h)]),
                 vp := Refs (the_refs (h ! vp) @ [Suc (Suc (length h))]),
                 tep := Refs (the_refs (h ! tep) @ [Suc (Suc (Suc (length h)))])] @
               [Ints (fst (shuffle L (the_gen (h ! rng)) [0..<len (the_frame (h ! grp))])),
                Frame tr, Frame va, Frame te]))"
proof -
  from assms(1) have d: "rng \<noteq> tp" "rng \<noteq> vp" "rng \<noteq> tep" "tp \<noteq> vp" "tp \<noteq> tep" "vp \<noteq> tep"
    "tp \<noteq> rng" "vp \<noteq> rng" "tep \<noteq> rng" "vp \<noteq> tp" "tep \<noteq> tp" "tep \<noteq> vp"
    and l: "rng < length h" "tp < length h" "vp < length h" "tep < length h"
    by (auto simp: loop_ok_def)
  show ?thesis
    using d l assms(2-6)
    unfolding split_group_at_def split_group_def Let_def new_def case_prod_beta fst_conv snd_conv
      shuffle_at_def append_at_def
    by (simp add: iloc_at_eq nth_append list_update_append split: sum.splits)
qed

lemma loop_ok_facts:
  assumes "loop_ok h rng tp vp tep"
  shows "rng \<noteq> tp" "rng \<noteq> vp" "rng \<noteq> tep" "tp \<noteq> vp" "tp \<noteq> tep" "vp \<noteq> tep"
    "tp \<noteq> rng" "vp \<noteq> rng" "tep \<noteq> rng" "vp \<noteq> tp" "tep \<noteq> tp" "tep \<noteq> vp"
    "rng < length h" "tp < length h" "vp < length h" "tep < length h"
  using assms by (auto simp: loop_ok_def)

lemma loop_ok_refs:
  assumes "loop_ok h rng tp vp tep"
    and "a \<in> set (the_refs (h ! tp)) \<union> set (the_refs (h ! vp)) \<union> set (the_refs (h ! tep))"
  shows "a < length h \<and> a \<noteq> rng \<and> a \<noteq> tp \<and> a \<noteq> vp \<and> a \<noteq> tep"
  using assms by (auto simp: loop_ok_def list_all_iff)

text \<open>The store after one pass of the loop body.\<close>

lemma step_store:
  fixes h :: "('g, 'v) heap" and g' p tr va te
  assumes ok: "loop_ok h rng tp vp tep"
  defines "h' \<equiv> h[rng := Generator g', tp := Refs (the_refs (h ! tp) @ [Suc (length h)]),
                 vp := Refs (the_refs (h ! vp) @ [Suc (Suc (length h))]),
                 tep := Refs (the_refs (h ! tep) @ [Suc (Suc (Suc (length h)))])] @
               [Ints p, Frame tr, Frame va, Frame te]"
  shows "length h' = length h + 4"
    and "the_gen (h' ! rng) = g'"
    and "the_refs (h' ! tp) = the_refs (h ! tp) @ [Suc (length h)]"
    and "the_refs (h' ! vp) = the_refs (h ! vp) @ [Suc (Suc (length h))]"
    and "the_refs (h' ! tep) = the_refs (h ! tep) @ [Suc (Suc (Suc (length h)))]"
    and "h' ! Suc (length h) = Frame tr"
    and "h' ! Suc (Suc (length h)) = Frame va"
    and "h' ! Suc (Suc (Suc (length h))) = Frame te"
    and "\<And>a. a < length h \<Longrightarrow> a \<noteq> rng \<Longrightarrow> a \<noteq> tp \<Longrightarrow> a \<noteq> vp \<Longrightarrow> a \<noteq> tep \<Longrightarrow> h' ! a = h ! a"
  using loop_ok_facts[OF ok] unfolding h'_def
  by (simp_all add: nth_append)

lemma step_loop_ok:
  fixes h :: "('g, 'v) heap" and g' p tr va te
  assumes ok: "loop_ok h rng tp vp tep"
  defines "h' \<equiv> h[rng := Generator g', tp := Refs (the_refs (h ! tp) @ [Suc (length h)]),
                 vp := Refs (the_refs (h ! vp) @ [Suc (Suc (length h))]),
                 tep := Refs (the_refs (h ! tep) @ [Suc (Suc (Suc (length h)))])] @
               [Ints p, Frame tr, Frame va, Frame te]"
  shows "loop_ok h' rng tp vp tep"
proof -
  note f = loop_ok_facts[OF ok]
  note s = step_store[OF ok, where g'=g' and p=p and tr=tr and va=va and te=te, folded h'_def]
  have old: "a < length h' \<and> a \<noteq> rng \<and> a \<noteq> tp \<and> a \<noteq> vp \<and> a \<noteq> tep"
    if "a \<in> set (the_refs (h ! tp)) \<union> set (the_refs (h ! vp)) \<union> set (the_refs (h ! tep))" for a
    using loop_ok_refs[OF ok that] s(1) by simp
  have new: "a < length h' \<and> a \<noteq> rng \<and> a \<noteq> tp \<and> a \<noteq> vp \<and> a \<noteq> tep"
    if "a \<in> {Suc (length h), Suc (Suc (length h)), Suc (Suc (Suc (length h)))}" for a
    using that f(13-16) s(1) by auto
  have "\<forall>a\<in>set (the_refs (h' ! tp) @ the_refs (h' ! vp) @ the_refs (h' ! tep)).
          a < length h' \<and> a \<noteq> rng \<and> a \<noteq> tp \<and> a \<noteq> vp \<and> a \<noteq> tep"
    unfolding s(3-5) using old new by auto
  then show ?thesis
    unfolding loop_ok_def list_all_iff using f s(1) by simp
qed

lemma step_parts:
  fixes h :: "('g, 'v) heap" and g' p tr va te
  assumes ok: "loop_ok h rng tp vp tep"
  defines "h' \<equiv> h[rng := Generator g', tp := Refs (the_refs (h ! tp) @ [Suc (length h)]),
                 vp := Refs (the_refs (h ! vp) @ [Suc (Suc (length h))]),
                 tep := Refs (the_refs (h ! tep) @ [Suc (Suc (Suc (length h)))])] @
               [Ints p, Frame tr, Frame va, Frame te]"
  shows "parts_of h' tp = parts_of h tp @ [tr]"
    and "parts_of h' vp = parts_of h vp @ [va]"
    and "parts_of h' tep = parts_of h tep @ [te]"
proof -
  note s = step_store[OF ok, where g'=g' and p=p and tr=tr and va=va and te=te, folded h'_def]
  have keep: "the_frame (h' ! a) = the_frame (h ! a)"
    if "a \<in> set (the_refs (h ! tp)) \<union> set (the_refs (h ! vp)) \<union> set (the_refs (h ! tep))" for a
    using loop_ok_refs[OF ok that] s(9)[of a] by simp
  show "parts_of h' tp = parts_of h tp @ [tr]"
    unfolding parts_of_def s(3) using keep s(6) by simp
  show "parts_of h' vp = parts_of h vp @ [va]"
    unfolding parts_of_def s(4) using keep s(7) by simp
  show "parts_of h' tep = parts_of h tep @ [te]"
    unfolding parts_of_def s(5) using keep s(8) by simp
qed

lemma strat_loop_at_refines:
  fixes h :: "('g, 'v) heap"
  assumes "loop_ok h rng tp vp tep"
    and "list_all (\<lambda>ka. snd ka < length h \<and> snd ka \<noteq> rng \<and> snd ka \<noteq> tp \<and>
                         snd ka \<noteq> vp \<and> snd ka \<noteq> tep) groups"
  shows "case strat_loop L r (the_gen (h ! rng))
                (map (\<lambda>ka. (fst ka, the_frame (h ! snd ka))) groups)
                (parts_of h tp, parts_of h vp, parts_of h tep) of
           Inl e \<Rightarrow> strat_loop_at L r h rng groups tp vp tep = Inl e
         | Inr (A, B, C) \<Rightarrow>
             (\<exists>h'. strat_loop_at L r h rng groups tp vp tep = Inr h' \<and>
                   parts_of h' tp = A \<and> parts_of h' vp = B \<and> parts_of h' tep = C \<and>
                   loop_ok h' rng tp vp tep \<and> length h \<le> length h')"
  using assms
proof (induction groups arbitrary: h)
  case Nil
  then show ?case by simp
next
  case (Cons ka groups)
  obtain k a where ka: "ka = (k, a)" by (cases ka)
  note ok = Cons.prems(1)
  from Cons.prems(2) have a: "a < length h" "a \<noteq> rng" "a \<noteq> tp" "a \<noteq> vp" "a \<noteq> tep"
    and rest: "list_all (\<lambda>ka. snd ka < length h \<and> snd ka \<noteq> rng \<and> snd ka \<noteq> tp \<and>
                         snd ka \<noteq> vp \<and> snd ka \<noteq> tep) groups"
    by (simp_all add: ka)
  note eq = split_group_at_eq[OF ok a, of L r]
  show ?case
  proof (cases "split_group L r (the_gen (h ! rng)) (the_frame (h ! a))")
    case (Inl e)
    then show ?thesis by (simp add: ka eq)
  next
    case (Inr x)
    obtain g' tr va te where x: "x = (g', tr, va, te)" by (cases x)
    let ?p = "fst (shuffle L (the_gen (h ! rng)) [0..<len (the_frame (h ! a))])"
    let ?h1 = "h[rng := Generator g', tp := Refs (the_refs (h ! tp) @ [Suc (length h)]),
                 vp := Refs (the_refs (h ! vp) @ [Suc (Suc (length h))]),
                 tep := Refs (the_refs (h ! tep) @ [Suc (Suc (Suc (length h)))])] @
               [Ints ?p, Frame tr, Frame va, Frame te]"
    have at: "split_group_at L r h rng a tp vp tep = Inr ?h1"
      by (simp add: eq Inr x)
    note s = step_store[OF ok, where g'=g' and p="?p" and tr=tr and va=va and te=te]
    have ok1: "loop_ok ?h1 rng tp vp tep" by (rule step_loop_ok[OF ok])
    have rest1: "list_all (\<lambda>ka. snd ka < length ?h1 \<and> snd ka \<noteq> rng \<and> snd ka \<noteq> tp \<and>
                         snd ka \<noteq> vp \<and> snd ka \<noteq> tep) groups"
      using rest unfolding list_all_iff s(1) by auto
    have same: "map (\<lambda>ka. (fst ka, the_frame (?h1 ! snd ka))) groups =
                map (\<lambda>ka. (fst ka, the_frame (h ! snd ka))) groups"
      using rest s(9) unfolding list_all_iff by (intro map_cong refl) auto
    have pure: "strat_loop L r (the_gen (h ! rng))
                (map (\<lambda>ka. (fst ka, the_frame (h ! snd ka))) (ka # groups))
                (parts_of h tp, parts_of h vp, parts_of h tep) =
          strat_loop L r (the_gen (?h1 ! rng))
                (map (\<lambda>ka. (fst ka, the_frame (?h1 ! snd ka))) groups)
                (parts_of ?h1 tp, parts_of ?h1 vp, parts_of ?h1 tep)"
      unfolding same s(2) step_parts[OF ok] by (simp add: ka Inr x)
    have heap: "strat_loop_at L r h rng (ka # groups) tp vp tep =
                strat_loop_at L r ?h1 rng groups tp vp tep"
      by (simp add: ka at)
    have len: "length h \<le> length ?h1" unfolding s(1) by simp
    from Cons.IH[OF ok1 rest1] len show ?thesis
      unfolding pure heap by (auto split: sum.splits)
  qed
qed

lemma pooled_at_eq:
  "pooled_at L seed h lst =
     (case concat_frames (parts_of h lst) of
        Inl e \<Rightarrow> Inl e
      | Inr d \<Rightarrow>
          (case sample L seed d of
             Inl e \<Rightarrow> Inl e
           | Inr s \<Rightarrow> Inr (Suc (Suc (length h)), h @ [Frame d, Frame s, Frame (reset_index s)])))"
  unfolding pooled_at_def parts_of_def Let_def new_def case_prod_beta fst_conv snd_conv
  by (simp add: nth_append split: sum.splits)

lemma pooled_at_Inl:
  "pooled L seed (parts_of h lst) = Inl e \<Longrightarrow> pooled_at L seed h lst = Inl e"
  unfolding pooled_at_eq pooled_def by (auto split: sum.splits)

lemma pooled_at_Inr:
  assumes "pooled L seed (parts_of h lst) = Inr f"
  shows "\<exists>d s. pooled_at L seed h lst = Inr (Suc (Suc (length h)), h @ [Frame d, Frame s, Frame f])"
  using assms unfolding pooled_at_eq pooled_def by (auto split: sum.splits)

lemma parts_of_append:
  assumes "loop_ok h rng tp vp tep"
  shows "parts_of (h @ ys) tp = parts_of h tp" "parts_of (h @ ys) vp = parts_of h vp"
    "parts_of (h @ ys) tep = parts_of h tep"
proof -
  note f = loop_ok_facts[OF assms]
  have keep: "(h @ ys) ! a = h ! a"
    if "a \<in> set (the_refs (h ! tp)) \<union> set (the_refs (h ! vp)) \<union> set (the_refs (h ! tep))" for a
    using loop_ok_refs[OF assms that] by (simp add: nth_append)
  show "parts_of (h @ ys) tp = parts_of h tp" "parts_of (h @ ys) vp = parts_of h vp"
    "parts_of (h @ ys) tep = parts_of h tep"
    unfolding parts_of_def using f(14-16) keep by (simp_all add: nth_append)
qed

lemma loop_ok_append:
  assumes "loop_ok h rng tp vp tep"
  shows "loop_ok (h @ ys) rng tp vp tep"
proof -
  note f = loop_ok_facts[OF assms]
  have "\<forall>a\<in>set (the_refs (h ! tp) @ the_refs (h ! vp) @ the_refs (h ! tep)).
          a < length (h @ ys) \<and> a \<noteq> rng \<and> a \<noteq> tp \<and> a \<noteq> vp \<and> a \<noteq> tep"
    using loop_ok_refs[OF assms] by fastforce
  then show ?thesis
    unfolding loop_ok_def list_all_iff using f by (simp add: nth_append)
qed

lemma groups_read_back:
  "map (\<lambda>ka. (fst ka, the_frame ((h @ map (\<lambda>kg. Frame (snd kg)) gs) ! snd ka)))
       (zip (map fst gs) [length h..<length h + length gs]) = gs"
  by (rule nth_equalityI) (simp_all add: nth_append)

lemma groups_addresses:
  "list_all (\<lambda>ka. snd ka < length (h @ map (\<lambda>kg. Frame (snd kg)) gs) \<and> length h \<le> snd ka)
     (zip (map fst gs) [length h..<length h + length gs])"
  unfolding list_all_iff by (auto simp: set_zip)

lemma stratified_split_at_unfold:
  "stratified_split_at L h df label_col seed r =
     (if \<not> ratios_ok r then Inl AssertionError
      else case groupby_at (h @ [Generator (default_rng L seed), Refs [], Refs [], Refs []])
                  df label_col of
             Inl e \<Rightarrow> Inl e
           | Inr (groups, h5) \<Rightarrow>
               (case strat_loop_at L r h5 (length h) groups (Suc (length h))
                       (Suc (Suc (length h))) (Suc (Suc (Suc (length h)))) of
                  Inl e \<Rightarrow> Inl e
                | Inr h6 \<Rightarrow>
                    (case pooled_at L seed h6 (Suc (length h)) of
                       Inl e \<Rightarrow> Inl e
                     | Inr (train_df, h7) \<Rightarrow>
                         (case pooled_at L seed h7 (Suc (Suc (length h))) of
                            Inl e \<Rightarrow> Inl e
                          | Inr (val_df, h8) \<Rightarrow>
                              (case pooled_at L seed h8 (Suc (Suc (Suc (length h)))) of
                                 Inl e \<Rightarrow> Inl e
                               | Inr (test_df, h9) \<Rightarrow>
                                   Inr ((train_df, val_df, test_df), h9))))))"
  by (auto simp add: stratified_split_at_def Let_def new_def split: sum.splits prod.splits)

lemma fresh_loop_ok:
  "loop_ok (h @ [Generator g, Refs [], Refs [], Refs []]) (length h) (Suc (length h))
     (Suc (Suc (length h))) (Suc (Suc (Suc (length h))))"
  by (simp add: loop_ok_def nth_append)

lemma stratified_refines:
  fixes h :: "('g, 'v::linorder) heap"
  assumes "df < length h"
  shows "frames_of (stratified_split_at L h df label_col seed r) =
         stratified_split L (the_frame (h ! df)) label_col seed r"
proof (cases "ratios_ok r")
  case False
  then show ?thesis
    by (simp add: stratified_split_at_unfold stratified_split_def frames_of_def)
next
  case True
  let ?n = "length h"
  let ?rng = "?n" and ?tp = "Suc ?n" and ?vp = "Suc (Suc ?n)" and ?tep = "Suc (Suc (Suc ?n))"
  let ?g0 = "default_rng L seed"
  let ?h4 = "h @ [Generator ?g0, Refs [], Refs [], Refs []]"
  let ?d = "the_frame (h ! df)"
  have rd: "the_frame (?h4 ! df) = ?d" using assms by (simp add: nth_append)
  show ?thesis
  proof (cases "groupby ?d label_col")
    case (Inl e)
    then have "groupby_at ?h4 df label_col = Inl e" by (simp add: groupby_at_def rd)
    then show ?thesis using True Inl
      by (simp add: stratified_split_at_unfold stratified_split_def frames_of_def)
  next
    case (Inr gs)
    note gb = Inr
    let ?ga = "zip (map fst gs) [length ?h4..<length ?h4 + length gs]"
    let ?h5 = "?h4 @ map (\<lambda>kg. Frame (snd kg)) gs"
    have ga: "groupby_at ?h4 df label_col = Inr (?ga, ?h5)"
      by (simp add: groupby_at_def rd Inr)
    have ok5: "loop_ok ?h5 ?rng ?tp ?vp ?tep"
      by (rule loop_ok_append[OF fresh_loop_ok])
    have adr0: "\<forall>ka\<in>set ?ga. snd ka < length ?h5 \<and> length ?h4 \<le> snd ka"
      using groups_addresses[of ?h4 gs] unfolding list_all_iff .
    have l4: "length ?h4 = ?n + 4" by simp
    have adr: "list_all (\<lambda>ka. snd ka < length ?h5 \<and> snd ka \<noteq> ?rng \<and> snd ka \<noteq> ?tp \<and>
                         snd ka \<noteq> ?vp \<and> snd ka \<noteq> ?tep) ?ga"
      unfolding list_all_iff
    proof (intro ballI)
      fix ka assume "ka \<in> set ?ga"
      with adr0 have "snd ka < length ?h5 \<and> length ?h4 \<le> snd ka" by blast
      then show "snd ka < length ?h5 \<and> snd ka \<noteq> ?rng \<and> snd ka \<noteq> ?tp \<and>
                         snd ka \<noteq> ?vp \<and> snd ka \<noteq> ?tep"
        unfolding l4 by arith
    qed
    have rb: "map (\<lambda>ka. (fst ka, the_frame (?h5 ! snd ka))) ?ga = gs"
      by (rule groups_read_back)
    have g5: "the_gen (?h5 ! ?rng) = ?g0" by (simp add: nth_append)
    have p5: "parts_of ?h5 ?tp = []" "parts_of ?h5 ?vp = []" "parts_of ?h5 ?tep = []"
      by (simp_all add: parts_of_def nth_append)
    note loop = strat_loop_at_refines[OF ok5 adr, of L r, unfolded rb g5 p5]
    have top: "stratified_split_at L h df label_col seed r =
        (case strat_loop_at L r ?h5 ?rng ?ga ?tp ?vp ?tep of
           Inl e \<Rightarrow> Inl e
         | Inr h6 \<Rightarrow>
             (case pooled_at L seed h6 ?tp of
                Inl e \<Rightarrow> Inl e
              | Inr (train_df, h7) \<Rightarrow>
                  (case pooled_at L seed h7 ?vp of
                     Inl e \<Rightarrow> Inl e
                   | Inr (val_df, h8) \<Rightarrow>
                       (case pooled_at L seed h8 ?tep of
                          Inl e \<Rightarrow> Inl e
                        | Inr (test_df, h9) \<Rightarrow> Inr ((train_df, val_df, test_df), h9)))))"
      using True
      by (simp only: stratified_split_at_unfold not_True_eq_False if_False ga sum.case prod.case)
    show ?thesis
    proof (cases "strat_loop L r ?g0 gs ([], [], [])")
      case (Inl e)
      with loop have la: "strat_loop_at L r ?h5 ?rng ?ga ?tp ?vp ?tep = Inl e"
        by (simp only: sum.case)
      have pureI: "stratified_split L ?d label_col seed r = Inl e"
        using True by (simp add: stratified_split_def gb Inl)
      show ?thesis unfolding top la sum.case pureI by (simp add: frames_of_def)
    next
      case (Inr x)
      note lp = Inr
      obtain A B C where x: "x = (A, B, C)" by (cases x)
      from loop obtain h6 where
        l6: "strat_loop_at L r ?h5 ?rng ?ga ?tp ?vp ?tep = Inr h6" and
        pa: "parts_of h6 ?tp = A" "parts_of h6 ?vp = B" "parts_of h6 ?tep = C" and
        ok6: "loop_ok h6 ?rng ?tp ?vp ?tep"
        unfolding lp x sum.case prod.case by blast
      have pure: "stratified_split L ?d label_col seed r =
          (case pooled L seed A of
             Inl e \<Rightarrow> Inl e
           | Inr train_df \<Rightarrow>
               (case pooled L seed B of
                  Inl e \<Rightarrow> Inl e
                | Inr val_df \<Rightarrow>
                    (case pooled L seed C of
                       Inl e \<Rightarrow> Inl e
                     | Inr test_df \<Rightarrow> Inr (train_df, val_df, test_df))))"
        using True by (simp add: stratified_split_def gb lp x)
      have store: "stratified_split_at L h df label_col seed r =
          (case pooled_at L seed h6 ?tp of
             Inl e \<Rightarrow> Inl e
           | Inr (train_df, h7) \<Rightarrow>
               (case pooled_at L seed h7 ?vp of
                  Inl e \<Rightarrow> Inl e
                | Inr (val_df, h8) \<Rightarrow>
                    (case pooled_at L seed h8 ?tep of
                       Inl e \<Rightarrow> Inl e
                     | Inr (test_df, h9) \<Rightarrow> Inr ((train_df, val_df, test_df), h9))))"
        unfolding top l6 sum.case ..
      show ?thesis
      proof (cases "pooled L seed A")
        case (Inl e)
        then have "pooled_at L seed h6 ?tp = Inl e" using pooled_at_Inl[of L seed h6 ?tp e] pa by simp
        then show ?thesis using Inl by (simp add: pure store frames_of_def)
      next
        case (Inr f1)
        note f1 = Inr
        obtain d1 s1 where
          q1: "pooled_at L seed h6 ?tp = Inr (Suc (Suc (length h6)), h6 @ [Frame d1, Frame s1, Frame f1])"
          using pooled_at_Inr[of L seed h6 ?tp f1] f1 pa by auto
        let ?h7 = "h6 @ [Frame d1, Frame s1, Frame f1]"
        have pb: "parts_of ?h7 ?vp = B" using parts_of_append(2)[OF ok6] pa by simp
        show ?thesis
        proof (cases "pooled L seed B")
          case (Inl e)
          then have "pooled_at L seed ?h7 ?vp = Inl e"
            using pooled_at_Inl[of L seed ?h7 ?vp e] pb by simp
          then show ?thesis using Inl f1 by (simp add: pure store q1 frames_of_def)
        next
          case (Inr f2)
          note f2 = Inr
          obtain d2 s2 where
            q2: "pooled_at L seed ?h7 ?vp =
                   Inr (Suc (Suc (length ?h7)), ?h7 @ [Frame d2, Frame s2, Frame f2])"
            using pooled_at_Inr[of L seed ?h7 ?vp f2] f2 pb by auto
          let ?h8 = "?h7 @ [Frame d2, Frame s2, Frame f2]"
          have ok7: "loop_ok ?h7 ?rng ?tp ?vp ?tep" by (rule loop_ok_append[OF ok6])
          have pc: "parts_of ?h8 ?tep = C"
            using parts_of_append(3)[OF ok7] parts_of_append(3)[OF ok6] pa by simp
          show ?thesis
          proof (cases "pooled L seed C")
            case (Inl e)
            then have "pooled_at L seed ?h8 ?tep = Inl e"
              using pooled_at_Inl[of L seed ?h8 ?tep e] pc by simp
            then show ?thesis using Inl f1 f2 by (simp add: pure store q1 q2 frames_of_def)
          next
            case (Inr f3)
            obtain d3 s3 where
              q3: "pooled_at L seed ?h8 ?tep =
                     Inr (Suc (Suc (length ?h8)), ?h8 @ [Frame d3, Frame s3, Frame f3])"
              using pooled_at_Inr[of L seed ?h8 ?tep f3] Inr pc by auto
            show ?thesis
              unfolding pure store f1 f2 Inr q1 q2 q3 sum.case prod.case frames_of_def
              by (simp add: nth_append)
          qed
        qed
      qed
    qed
  qed
qed

section \<open>Repeated calls and the input table\<close>

lemma frames_of_Inr: "frames_of x = Inr y \<Longrightarrow> \<exists>res h'. x = Inr (res, h')"
  by (cases x) (auto simp: frames_of_def)

lemma take_nth_same: "take n h' = h \<Longrightarrow> a < length h \<Longrightarrow> h' ! a = h ! a \<and> a < length h'"
  by (metis length_take min_less_iff_conj nth_take)

lemma demo_heap_runs:
  "\<exists>res h'. split_dataframe_at demo_lib demo_heap 0 42 = Inr (res, h')"
  "\<exists>res h'. stratified_split_at demo_lib demo_heap 0 ''protocol_type'' 42 default_ratios = Inr (res, h')"
proof -
  have d: "0 < length demo_heap" "the_frame (demo_heap ! 0) = demo_table"
    by (simp_all add: demo_heap_def)
  obtain y where "split_dataframe demo_lib demo_table 42 = Inr y"
    using uniform_succeeds[OF demo_lib_ok, of demo_table 42] by blast
  then have "frames_of (split_dataframe_at demo_lib demo_heap 0 42) = Inr y"
    using uniform_refines[OF d(1), of demo_lib 42] d(2) by simp
  then show "\<exists>res h'. split_dataframe_at demo_lib demo_heap 0 42 = Inr (res, h')"
    by (rule frames_of_Inr)
  obtain z where "stratified_split demo_lib demo_table ''protocol_type'' 42 default_ratios = Inr z"
    using stratified_closed_form[OF demo_lib_ok demo_table_facts default_ratios_ok
        default_ratios_nonneg(1,2), of 42] by blast
  then have "frames_of (stratified_split_at demo_lib demo_heap 0 ''protocol_type'' 42 default_ratios) = Inr z"
    using stratified_refines[OF d(1), of demo_lib "''protocol_type''" 42 default_ratios] d(2) by simp
  then show "\<exists>res h'. stratified_split_at demo_lib demo_heap 0 ''protocol_type'' 42 default_ratios = Inr (res, h')"
    by (rule frames_of_Inr)
qed

text \<open>
  Claim C9. When a split returns, every object that was in the store before the call is as
  it was, the input table among them: its rows, values, column names and row order. The
  in-place operations of the two functions (the shuffles and the appends) reach only
  objects the call has created itself.
\<close>

theorem input_table_unchanged:
  assumes "df < length h"
  shows "(\<forall>res h'. split_dataframe_at L h df seed = Inr (res, h') \<longrightarrow>
            take (length h) h' = h \<and> h' ! df = h ! df) \<and>
         (\<forall>res h'. stratified_split_at L h df label_col seed r = Inr (res, h') \<longrightarrow>
            take (length h) h' = h \<and> h' ! df = h ! df)"
proof (intro conjI allI impI)
  fix res h' assume a: "split_dataframe_at L h df seed = Inr (res, h')"
  show "take (length h) h' = h" by (rule uniform_keeps_store[OF a])
  then show "h' ! df = h ! df" using take_nth_same[OF _ assms] by blast
next
  fix res h' assume a: "stratified_split_at L h df label_col seed r = Inr (res, h')"
  show "take (length h) h' = h" by (rule stratified_keeps_store[OF a])
  then show "h' ! df = h ! df" using take_nth_same[OF _ assms] by blast
qed

text \<open>The store that holds the five-row table at address 0.\<close>

theorem input_table_unchanged_witness:
  "0 < length demo_heap \<and>
   (\<exists>res h'. split_dataframe_at demo_lib demo_heap 0 42 = Inr (res, h') \<and>
      take (length demo_heap) h' = demo_heap \<and> h' ! 0 = Frame demo_table) \<and>
   (\<exists>res h'. stratified_split_at demo_lib demo_heap 0 ''protocol_type'' 42 default_ratios =
        Inr (res, h') \<and>
      take (length demo_heap) h' = demo_heap \<and> h' ! 0 = Frame demo_table)"
proof -
  have d: "0 < length demo_heap" and f: "demo_heap ! 0 = Frame demo_table"
    by (simp_all add: demo_heap_def)
  note t = input_table_unchanged[OF d, of demo_lib 42 "''protocol_type''" default_ratios]
  obtain res1 h1 where r1: "split_dataframe_at demo_lib demo_heap 0 42 = Inr (res1, h1)"
    using demo_heap_runs(1) by blast
  obtain res2 h2 where r2: "stratified_split_at demo_lib demo_heap 0 ''protocol_type'' 42 default_ratios = Inr (res2, h2)"
    using demo_heap_runs(2) by blast
  from t r1 have k1: "take (length demo_heap) h1 = demo_heap \<and> h1 ! 0 = Frame demo_table"
    unfolding f[symmetric] by blast
  from t r2 have k2: "take (length demo_heap) h2 = demo_heap \<and> h2 ! 0 = Frame demo_table"
    unfolding f[symmetric] by blast
  from d r1 k1 r2 k2 show ?thesis by blast
qed

text \<open>
  Claim C4. A split that is called again with the same table, seed and mode, in the store
  the first call has left, returns frames equal to those of the first call, rows in the
  same order: each call builds its generators anew from the seed, and the first call has
  not changed the table.
\<close>

theorem repeated_call_same_result:
  assumes "df < length h"
  shows "(\<forall>res1 h1. split_dataframe_at L h df seed = Inr (res1, h1) \<longrightarrow>
            (\<exists>res2 h2. split_dataframe_at L h1 df seed = Inr (res2, h2) \<and>
               frames_of (Inr (res2, h2)) = frames_of (Inr (res1, h1)))) \<and>
         (\<forall>res1 h1. stratified_split_at L h df label_col seed r = Inr (res1, h1) \<longrightarrow>
            (\<exists>res2 h2. stratified_split_at L h1 df label_col seed r = Inr (res2, h2) \<and>
               frames_of (Inr (res2, h2)) = frames_of (Inr (res1, h1))))"
proof (intro conjI allI impI)
  fix res1 h1 assume a: "split_dataframe_at L h df seed = Inr (res1, h1)"
  have k: "h1 ! df = h ! df" "df < length h1"
    using take_nth_same[OF uniform_keeps_store[OF a] assms] by simp_all
  have "frames_of (split_dataframe_at L h1 df seed) = frames_of (split_dataframe_at L h df seed)"
    unfolding uniform_refines[OF k(2)] uniform_refines[OF assms] k(1) ..
  then have e: "frames_of (split_dataframe_at L h1 df seed) = frames_of (Inr (res1, h1))"
    unfolding a .
  obtain y where "frames_of (Inr (res1, h1)) = Inr y"
    by (cases res1) (auto simp: frames_of_def)
  with e obtain res2 h2 where "split_dataframe_at L h1 df seed = Inr (res2, h2)"
    using frames_of_Inr by metis
  with e show "\<exists>res2 h2. split_dataframe_at L h1 df seed = Inr (res2, h2) \<and>
               frames_of (Inr (res2, h2)) = frames_of (Inr (res1, h1))" by auto
next
  fix res1 h1 assume a: "stratified_split_at L h df label_col seed r = Inr (res1, h1)"
  have k: "h1 ! df = h ! df" "df < length h1"
    using take_nth_same[OF stratified_keeps_store[OF a] assms] by simp_all
  have "frames_of (stratified_split_at L h1 df label_col seed r) =
        frames_of (stratified_split_at L h df label_col seed r)"
    unfolding stratified_refines[OF k(2)] stratified_refines[OF assms] k(1) ..
  then have e: "frames_of (stratified_split_at L h1 df label_col seed r) = frames_of (Inr (res1, h1))"
    unfolding a .
  obtain y where "frames_of (Inr (res1, h1)) = Inr y"
    by (cases res1) (auto simp: frames_of_def)
  with e obtain res2 h2 where "stratified_split_at L h1 df label_col seed r = Inr (res2, h2)"
    using frames_of_Inr by metis
  with e show "\<exists>res2 h2. stratified_split_at L h1 df label_col seed r = Inr (res2, h2) \<and>
               frames_of (Inr (res2, h2)) = frames_of (Inr (res1, h1))" by auto
qed

text \<open>Two calls of each split, one after the other, on the five-row table.\<close>

theorem repeated_call_same_result_witness:
  "0 < length demo_heap \<and>
   (\<exists>res1 h1 res2 h2.
      split_dataframe_at demo_lib demo_heap 0 42 = Inr (res1, h1) \<and>
      split_dataframe_at demo_lib h1 0 42 = Inr (res2, h2) \<and>
      frames_of (Inr (res2, h2)) = frames_of (Inr (res1, h1))) \<and>
   (\<exists>res1 h1 res2 h2.
      stratified_split_at demo_lib demo_heap 0 ''protocol_type'' 42 default_ratios = Inr (res1, h1) \<and>
      stratified_split_at demo_lib h1 0 ''protocol_type'' 42 default_ratios = Inr (res2, h2) \<and>
      frames_of (Inr (res2, h2)) = frames_of (Inr (res1, h1)))"
proof -
  have d: "0 < length demo_heap" by (simp add: demo_heap_def)
  note t = repeated_call_same_result[OF d, of demo_lib 42 "''protocol_type''" default_ratios]
  obtain res1 h1 where r1: "split_dataframe_at demo_lib demo_heap 0 42 = Inr (res1, h1)"
    using demo_heap_runs(1) by blast
  obtain res3 h3 where r3: "stratified_split_at demo_lib demo_heap 0 ''protocol_type'' 42 default_ratios = Inr (res3, h3)"
    using demo_heap_runs(2) by blast
  from t r1 obtain res2 h2 where "split_dataframe_at demo_lib h1 0 42 = Inr (res2, h2) \<and>
      frames_of (Inr (res2, h2)) = frames_of (Inr (res1, h1))" by blast
  with r1 have u: "\<exists>res1 h1 res2 h2.
      split_dataframe_at demo_lib demo_heap 0 42 = Inr (res1, h1) \<and>
      split_dataframe_at demo_lib h1 0 42 = Inr (res2, h2) \<and>
      frames_of (Inr (res2, h2)) = frames_of (Inr (res1, h1))" by blast
  from t r3 obtain res4 h4 where
    "stratified_split_at demo_lib h3 0 ''protocol_type'' 42 default_ratios = Inr (res4, h4) \<and>
      frames_of (Inr (res4, h4)) = frames_of (Inr (res3, h3))" by blast
  with r3 have s: "\<exists>res1 h1 res2 h2.
      stratified_split_at demo_lib demo_heap 0 ''protocol_type'' 42 default_ratios = Inr (res1, h1) \<and>
      stratified_split_at demo_lib h1 0 ''protocol_type'' 42 default_ratios = Inr (res2, h2) \<and>
      frames_of (Inr (res2, h2)) = frames_of (Inr (res1, h1))" by blast
  from d u s show ?thesis by blast
qed

end
